theory Spec2Isabelle
  imports Main
begin

section \<open>OS Process Manager: the process table and its two queues\<close>

text \<open>
  A shallow embedding of \<^verbatim>\<open>OS Process Manager.cpp\<close>. The C++ program keeps every
  \<^verbatim>\<open>Process\<close> object on the free store, owned by a \<^verbatim>\<open>unique_ptr\<close> inside
  \<^verbatim>\<open>processMap\<close>, and refers to it from the queues, from \<^verbatim>\<open>root\<close>, from
  \<^verbatim>\<open>parent\<close> and from \<^verbatim>\<open>children\<close> through raw pointers. The embedding therefore
  has an explicit store: an address is a natural number, the store maps an address to the
  object living there, and an address whose object has been deleted maps to \<open>None\<close>.
  Reading through such an address is undefined behaviour in C++ and the error
  \<open>UseAfterFree\<close> here. Every allocation takes a fresh address (\<open>nextAddr\<close>), so a
  dangling pointer never starts to point to a later object.

  \<^verbatim>\<open>int\<close> is the 32-bit signed integer. Identifiers are modelled as \<open>int\<close>; the one
  place where the program does arithmetic on them is \<^verbatim>\<open>pidCounter++\<close>, whose overflow
  at \<open>INT_MAX\<close> is undefined behaviour in C++ and the error \<open>SignedOverflow\<close> here.
\<close>

subsection \<open>Data model\<close>

type_synonym addr = nat

datatype error = UseAfterFree | SignedOverflow

definition INT_MAX :: int where
  "INT_MAX = 2147483647"

text \<open>\<^verbatim>\<open>class Process\<close>: \<open>callStack\<close> has its top at the head of the list.\<close>

record Process =
  pid :: int
  name :: string
  parent :: "addr option"
  children :: "addr list"
  callStack :: "string list"

text \<open>
  \<^verbatim>\<open>class ProcessManager\<close>, together with the free store its pointers point into.
  A queue is the list of its elements, front first.
\<close>

record state =
  pidCounter :: int
  root :: "addr option"
  processMap :: "int \<rightharpoonup> addr"
  readyQueue :: "addr list"
  ioQueue :: "addr list"
  heap :: "addr \<rightharpoonup> Process"
  nextAddr :: addr

text \<open>The freshly constructed manager: \<^verbatim>\<open>pidCounter = 1\<close>, \<^verbatim>\<open>root = nullptr\<close>, all containers empty.\<close>

definition init :: state where
  "init = \<lparr>pidCounter = 1, root = None, processMap = Map.empty, readyQueue = [],
            ioQueue = [], heap = Map.empty, nextAddr = 0\<rparr>"

subsection \<open>Printing\<close>

definition nl :: string where
  "nl = [CHR 0x0A]"

fun show_nat :: "nat \<Rightarrow> string" where
  "show_nat n = (if n < 10 then [''0123456789'' ! n]
                 else show_nat (n div 10) @ [''0123456789'' ! (n mod 10)])"

declare show_nat.simps [simp del]

text \<open>\<^verbatim>\<open>cout << (int)\<close>: decimal digits, a minus sign for a negative number.\<close>

definition show_int :: "int \<Rightarrow> string" where
  "show_int i = (if i < 0 then CHR ''-'' # show_nat (nat (- i)) else show_nat (nat i))"

subsection \<open>createProcess\<close>

text \<open>
  Lines 46 to 61 of the source, returning the new state and \<^verbatim>\<open>rawPtr\<close>.
  \<^verbatim>\<open>processMap[rawPtr->pid] = move(proc)\<close> deletes the object the entry owned before, if
  the key was present.
\<close>

definition createProcess_alloc :: "string \<Rightarrow> int \<Rightarrow> state \<Rightarrow> error + (state \<times> addr)" where
  "createProcess_alloc nm parentPID s =
     (let parent0 = (if parentPID \<noteq> -1 then processMap s parentPID else None) in
      if pidCounter s = INT_MAX then Inl SignedOverflow
      else
        let rawPtr = nextAddr s;
            proc = \<lparr>pid = pidCounter s, name = nm, parent = parent0, children = [],
                    callStack = []\<rparr>;
            s1 = s\<lparr>pidCounter := pidCounter s + 1, heap := (heap s)(rawPtr \<mapsto> proc),
                   nextAddr := Suc rawPtr\<rparr>;
            linked =
              (case parent0 of
                 Some pa \<Rightarrow>
                   (case heap s1 pa of
                      None \<Rightarrow> Inl UseAfterFree
                    | Some pp \<Rightarrow>
                        Inr (s1\<lparr>heap := (heap s1)(pa \<mapsto> pp\<lparr>children := children pp @ [rawPtr]\<rparr>)\<rparr>))
               | None \<Rightarrow> Inr (if root s1 = None then s1\<lparr>root := Some rawPtr\<rparr> else s1))
        in case linked of
             Inl e \<Rightarrow> Inl e
           | Inr s2 \<Rightarrow>
               (case heap s2 rawPtr of
                  None \<Rightarrow> Inl UseAfterFree
                | Some rp \<Rightarrow>
                    let key = pid rp;
                        h3 = (case processMap s2 key of
                                None \<Rightarrow> heap s2
                              | Some old \<Rightarrow> (heap s2)(old := None));
                        s3 = s2\<lparr>processMap := (processMap s2)(key \<mapsto> rawPtr), heap := h3\<rparr>
                    in Inr (s3\<lparr>readyQueue := readyQueue s3 @ [rawPtr]\<rparr>, rawPtr)))"

definition createProcess :: "string \<Rightarrow> int \<Rightarrow> state \<Rightarrow> error + (state \<times> string)" where
  "createProcess nm parentPID s =
     (case createProcess_alloc nm parentPID s of
        Inl e \<Rightarrow> Inl e
      | Inr (s', rawPtr) \<Rightarrow>
          (case heap s' rawPtr of
             None \<Rightarrow> Inl UseAfterFree
           | Some rp \<Rightarrow> Inr (s', ''Created process: PID='' @ show_int (pid rp) @ nl)))"

subsection \<open>callFunction\<close>

definition callFunction :: "int \<Rightarrow> string \<Rightarrow> state \<Rightarrow> error + (state \<times> string)" where
  "callFunction i funcName s =
     (case processMap s i of
        Some a \<Rightarrow>
          (case heap s a of
             None \<Rightarrow> Inl UseAfterFree
           | Some p \<Rightarrow>
               Inr (s\<lparr>heap := (heap s)(a \<mapsto> p\<lparr>callStack := funcName # callStack p\<rparr>)\<rparr>,
                    ''Process '' @ show_int i @ '' called function: '' @ funcName @ nl))
      | None \<Rightarrow> Inr (s, ''Process not found.'' @ nl))"

subsection \<open>requestIO\<close>

text \<open>
  The \<^verbatim>\<open>while\<close> loop of \<^verbatim>\<open>requestIO\<close>: the arguments are \<^verbatim>\<open>p\<close>, what is left of
  \<^verbatim>\<open>readyQueue\<close>, \<^verbatim>\<open>newQueue\<close>, \<^verbatim>\<open>ioQueue\<close> and \<^verbatim>\<open>found\<close>.
\<close>

fun requestIO_loop ::
  "addr \<Rightarrow> addr list \<Rightarrow> addr list \<Rightarrow> addr list \<Rightarrow> bool \<Rightarrow> addr list \<times> addr list \<times> bool" where
  "requestIO_loop p [] newQueue ioQ found = (newQueue, ioQ, found)"
| "requestIO_loop p (front # rest) newQueue ioQ found =
     (if front = p then requestIO_loop p rest newQueue (ioQ @ [front]) True
      else requestIO_loop p rest (newQueue @ [front]) ioQ found)"

definition requestIO :: "int \<Rightarrow> state \<Rightarrow> error + (state \<times> string)" where
  "requestIO i s =
     (case processMap s i of
        Some p \<Rightarrow>
          (case requestIO_loop p (readyQueue s) [] (ioQueue s) False of
             (newQueue, ioQ, found) \<Rightarrow>
               Inr (s\<lparr>readyQueue := newQueue, ioQueue := ioQ\<rparr>,
                    if found then ''Process '' @ show_int i @ '' moved to I/O queue.'' @ nl
                    else ''Process not in ready queue.'' @ nl))
      | None \<Rightarrow> Inr (s, ''Process not found.'' @ nl))"

subsection \<open>completeIO\<close>

text \<open>
  The \<^verbatim>\<open>while\<close> loop of \<^verbatim>\<open>completeIO\<close>: it reads \<^verbatim>\<open>front->pid\<close> of every element
  of the I/O queue. The arguments are the store, \<^verbatim>\<open>pid\<close>, what is left of
  \<^verbatim>\<open>ioQueue\<close>, \<^verbatim>\<open>newIOQueue\<close>, \<^verbatim>\<open>readyQueue\<close> and \<^verbatim>\<open>found\<close>.
\<close>

fun completeIO_loop ::
  "(addr \<rightharpoonup> Process) \<Rightarrow> int \<Rightarrow> addr list \<Rightarrow> addr list \<Rightarrow> addr list \<Rightarrow> bool
     \<Rightarrow> error + (addr list \<times> addr list \<times> bool)" where
  "completeIO_loop h i [] newIOQueue readyQ found = Inr (newIOQueue, readyQ, found)"
| "completeIO_loop h i (front # rest) newIOQueue readyQ found =
     (case h front of
        None \<Rightarrow> Inl UseAfterFree
      | Some fp \<Rightarrow>
          if pid fp = i then completeIO_loop h i rest newIOQueue (readyQ @ [front]) True
          else completeIO_loop h i rest (newIOQueue @ [front]) readyQ found)"

definition completeIO :: "int \<Rightarrow> state \<Rightarrow> error + (state \<times> string)" where
  "completeIO i s =
     (case completeIO_loop (heap s) i (ioQueue s) [] (readyQueue s) False of
        Inl e \<Rightarrow> Inl e
      | Inr (newIOQueue, readyQ, found) \<Rightarrow>
          Inr (s\<lparr>readyQueue := readyQ, ioQueue := newIOQueue\<rparr>,
               if found
               then ''Process '' @ show_int i @ '' completed I/O and returned to ready queue.'' @ nl
               else ''Process not found in I/O queue.'' @ nl))"

subsection \<open>terminateProcess\<close>

text \<open>The loop of \<^verbatim>\<open>removeFromQueue\<close>: \<^verbatim>\<open>p\<close>, what is left of \<^verbatim>\<open>q\<close>, and \<^verbatim>\<open>temp\<close>.\<close>

fun removeFromQueue_loop :: "addr \<Rightarrow> addr list \<Rightarrow> addr list \<Rightarrow> addr list" where
  "removeFromQueue_loop p [] temp = temp"
| "removeFromQueue_loop p (current # rest) temp =
     (if current \<noteq> p then removeFromQueue_loop p rest (temp @ [current])
      else removeFromQueue_loop p rest temp)"

definition removeFromQueue :: "addr list \<Rightarrow> addr \<Rightarrow> addr list" where
  "removeFromQueue q p = removeFromQueue_loop p q []"

text \<open>
  \<^verbatim>\<open>p->parent->children\<close> reads the parent object through the raw pointer stored in
  the child. \<^verbatim>\<open>siblings.erase(std::remove(...), siblings.end())\<close> is \<open>removeAll\<close>.
  \<^verbatim>\<open>processMap.erase(pid)\<close> destroys the owning pointer and with it the object.
\<close>

definition terminateProcess :: "int \<Rightarrow> state \<Rightarrow> error + (state \<times> string)" where
  "terminateProcess i s =
     (case processMap s i of
        None \<Rightarrow> Inr (s, ''Process not found.'' @ nl)
      | Some p \<Rightarrow>
          let s1 = s\<lparr>readyQueue := removeFromQueue (readyQueue s) p\<rparr>;
              s2 = s1\<lparr>ioQueue := removeFromQueue (ioQueue s1) p\<rparr>
          in case heap s2 p of
               None \<Rightarrow> Inl UseAfterFree
             | Some pr \<Rightarrow>
                 (case (case parent pr of
                          None \<Rightarrow> Inr s2
                        | Some pa \<Rightarrow>
                            (case heap s2 pa of
                               None \<Rightarrow> Inl UseAfterFree
                             | Some pp \<Rightarrow>
                                 Inr (s2\<lparr>heap := (heap s2)
                                        (pa \<mapsto> pp\<lparr>children := removeAll p (children pp)\<rparr>)\<rparr>))) of
                    Inl e \<Rightarrow> Inl e
                  | Inr s3 \<Rightarrow>
                      let s4 = (if Some p = root s3 then s3\<lparr>root := None\<rparr> else s3);
                          s5 = s4\<lparr>processMap := (processMap s4)(i := None),
                                 heap := (heap s4)(p := None)\<rparr>
                      in Inr (s5, ''Process '' @ show_int i @ '' terminated.'' @ nl)))"

subsection \<open>showState\<close>

text \<open>
  \<^verbatim>\<open>displayQueue\<close> takes the queue by value and drains its own copy.
\<close>

fun displayQueue :: "(addr \<rightharpoonup> Process) \<Rightarrow> addr list \<Rightarrow> error + string" where
  "displayQueue h [] = Inr []"
| "displayQueue h (p # q) =
     (case h p of
        None \<Rightarrow> Inl UseAfterFree
      | Some pr \<Rightarrow>
          (case displayQueue h q of
             Inl e \<Rightarrow> Inl e
           | Inr out \<Rightarrow> Inr (''PID: '' @ show_int (pid pr) @ '', Name: '' @ name pr @ nl @ out)))"

text \<open>
  The \<^verbatim>\<open>for\<close> loop of \<^verbatim>\<open>displayHierarchy\<close> over the children, given what the
  recursive call on one child does. \<open>None\<close> is a recursion that did not come back.
\<close>

fun displayChildren ::
  "(addr \<Rightarrow> (error + string) option) \<Rightarrow> addr list \<Rightarrow> (error + string) option" where
  "displayChildren f [] = Some (Inr [])"
| "displayChildren f (child # rest) =
     (case f child of
        None \<Rightarrow> None
      | Some (Inl e) \<Rightarrow> Some (Inl e)
      | Some (Inr out) \<Rightarrow>
          (case displayChildren f rest of
             None \<Rightarrow> None
           | Some (Inl e) \<Rightarrow> Some (Inl e)
           | Some (Inr out') \<Rightarrow> Some (Inr (out @ out'))))"

text \<open>
  \<^verbatim>\<open>Process::displayHierarchy\<close>. The recursion follows raw pointers and need not end on
  an arbitrary store, so it carries fuel: the first argument bounds the depth of the
  recursion, and \<open>None\<close> says that the bound was reached.
\<close>

fun displayHierarchy :: "nat \<Rightarrow> (addr \<rightharpoonup> Process) \<Rightarrow> addr \<Rightarrow> string \<Rightarrow> (error + string) option" where
  "displayHierarchy 0 h a indent = None"
| "displayHierarchy (Suc fuel) h a indent =
     (case h a of
        None \<Rightarrow> Some (Inl UseAfterFree)
      | Some pr \<Rightarrow>
          (case displayChildren (\<lambda>child. displayHierarchy fuel h child (indent @ ''  ''))
                  (children pr) of
             None \<Rightarrow> None
           | Some (Inl e) \<Rightarrow> Some (Inl e)
           | Some (Inr out) \<Rightarrow>
               Some (Inr (indent @ ''PID: '' @ show_int (pid pr) @ '', Name: '' @ name pr @ nl
                          @ out))))"

definition showState :: "nat \<Rightarrow> state \<Rightarrow> (error + (state \<times> string)) option" where
  "showState fuel s =
     (case displayQueue (heap s) (readyQueue s) of
        Inl e \<Rightarrow> Some (Inl e)
      | Inr out1 \<Rightarrow>
          (case displayQueue (heap s) (ioQueue s) of
             Inl e \<Rightarrow> Some (Inl e)
           | Inr out2 \<Rightarrow>
               (case (case root s of
                        Some r \<Rightarrow> displayHierarchy fuel (heap s) r []
                      | None \<Rightarrow> Some (Inr (''(No processes created yet)'' @ nl))) of
                  None \<Rightarrow> None
                | Some (Inl e) \<Rightarrow> Some (Inl e)
                | Some (Inr out3) \<Rightarrow>
                    Some (Inr (s, nl @ ''--- Ready Queue ---'' @ nl @ out1
                                  @ nl @ ''--- I/O Queue ---'' @ nl @ out2
                                  @ nl @ ''--- Process Tree ---'' @ nl @ out3
                                  @ ''--------------------'' @ nl)))))"

subsection \<open>Sequences of operations\<close>

text \<open>The five mutating operations, as the menu of \<^verbatim>\<open>main\<close> offers them.\<close>

datatype operation =
    CreateProcess string int
  | CallFunction int string
  | RequestIO int
  | CompleteIO int
  | TerminateProcess int

fun step :: "operation \<Rightarrow> state \<Rightarrow> error + (state \<times> string)" where
  "step (CreateProcess nm parentPID) s = createProcess nm parentPID s"
| "step (CallFunction i funcName) s = callFunction i funcName s"
| "step (RequestIO i) s = requestIO i s"
| "step (CompleteIO i) s = completeIO i s"
| "step (TerminateProcess i) s = terminateProcess i s"

text \<open>Running a sequence stops at the first undefined behaviour.\<close>

fun run :: "operation list \<Rightarrow> state \<Rightarrow> error + state" where
  "run [] s = Inr s"
| "run (x # xs) s = (case step x s of Inl e \<Rightarrow> Inl e | Inr (s', out) \<Rightarrow> run xs s')"

subsection \<open>Identifiers handed out along a sequence\<close>

text \<open>
  The identifiers of the \<^verbatim>\<open>Process\<close> objects that the calls of \<^verbatim>\<open>createProcess\<close> in a
  sequence construct (\<^verbatim>\<open>rawPtr->pid\<close>, the number each call prints), in the order of
  the calls, up to the end of the sequence or the first undefined behaviour.
\<close>

fun created_pids :: "operation list \<Rightarrow> state \<Rightarrow> int list" where
  "created_pids [] s = []"
| "created_pids (CreateProcess nm parentPID # xs) s =
     (case createProcess_alloc nm parentPID s of
        Inl e \<Rightarrow> []
      | Inr (s', rawPtr) \<Rightarrow>
          (case heap s' rawPtr of
             None \<Rightarrow> []
           | Some rp \<Rightarrow> pid rp # created_pids xs s'))"
| "created_pids (x # xs) s =
     (case step x s of Inl e \<Rightarrow> [] | Inr (s', out) \<Rightarrow> created_pids xs s')"

fun is_create :: "operation \<Rightarrow> bool" where
  "is_create (CreateProcess nm parentPID) = True"
| "is_create x = False"

text \<open>
  A sequence that creates a process and terminates it again, \<open>k\<close> times over: the
  \<open>j\<close>-th round creates the process with identifier \<open>j\<close>.
\<close>

fun churn :: "nat \<Rightarrow> operation list" where
  "churn 0 = []"
| "churn (Suc k) = churn k @ [CreateProcess [] (- 1), TerminateProcess (int (Suc k))]"

subsection \<open>Example states\<close>

text \<open>
  Three states of small runs: after creating \<^verbatim>\<open>init\<close> and its child; after the child
  has then asked for I/O; and after the run of section 8 of the specification, where the
  parent has been terminated and the child lives on.
\<close>

definition two_processes :: state where
  "two_processes =
     \<lparr>pidCounter = 3, root = Some 0, processMap = [1 \<mapsto> 0, 2 \<mapsto> 1], readyQueue = [0, 1],
      ioQueue = [],
      heap = [0 \<mapsto> \<lparr>pid = 1, name = ''init'', parent = None, children = [1], callStack = []\<rparr>,
              1 \<mapsto> \<lparr>pid = 2, name = ''child'', parent = Some 0, children = [], callStack = []\<rparr>],
      nextAddr = 2\<rparr>"

definition child_waiting :: state where
  "child_waiting = two_processes\<lparr>readyQueue := [0], ioQueue := [1]\<rparr>"

definition orphan_ready :: state where
  "orphan_ready =
     \<lparr>pidCounter = 3, root = None, processMap = [2 \<mapsto> 1], readyQueue = [1], ioQueue = [],
      heap = [1 \<mapsto> \<lparr>pid = 2, name = ''child'', parent = Some 0, children = [], callStack = []\<rparr>],
      nextAddr = 2\<rparr>"

section \<open>Consistency of the three views\<close>

text \<open>
  What every state reached from \<open>init\<close> satisfies. \<open>store_inv\<close>: the map and the
  store describe the same objects, each under its own identifier. \<open>queue_inv\<close>: the
  two queues together hold every live object exactly once. \<open>counter_inv\<close>: identifiers
  and addresses in use lie below the two counters. \<open>tree_inv\<close>: \<open>root\<close> and the
  \<open>children\<close> lists only hold live objects, a child names its parent, and a parent
  has the smaller address.
\<close>

definition store_inv :: "state \<Rightarrow> bool" where
  "store_inv s \<longleftrightarrow>
     (\<forall>i a. processMap s i = Some a \<longrightarrow> (\<exists>p. heap s a = Some p \<and> pid p = i)) \<and>
     (\<forall>a p. heap s a = Some p \<longrightarrow> processMap s (pid p) = Some a)"

definition queue_inv :: "state \<Rightarrow> bool" where
  "queue_inv s \<longleftrightarrow>
     distinct (readyQueue s @ ioQueue s) \<and>
     set (readyQueue s) \<union> set (ioQueue s) = dom (heap s)"

definition counter_inv :: "state \<Rightarrow> bool" where
  "counter_inv s \<longleftrightarrow>
     1 \<le> pidCounter s \<and>
     (\<forall>i a. processMap s i = Some a \<longrightarrow> 1 \<le> i \<and> i < pidCounter s) \<and>
     (\<forall>a p. heap s a = Some p \<longrightarrow> a < nextAddr s)"

definition tree_inv :: "state \<Rightarrow> bool" where
  "tree_inv s \<longleftrightarrow>
     (\<forall>r. root s = Some r \<longrightarrow> heap s r \<noteq> None) \<and>
     (\<forall>a p c. heap s a = Some p \<longrightarrow> c \<in> set (children p) \<longrightarrow>
        a < c \<and> (\<exists>q. heap s c = Some q \<and> parent q = Some a)) \<and>
     (\<forall>c q a. heap s c = Some q \<longrightarrow> parent q = Some a \<longrightarrow> a < c)"

definition registry_inv :: "state \<Rightarrow> bool" where
  "registry_inv s \<longleftrightarrow> store_inv s \<and> queue_inv s \<and> counter_inv s \<and> tree_inv s"


lemmas inv_defs = registry_inv_def store_inv_def queue_inv_def counter_inv_def tree_inv_def

lemmas ops_defs = createProcess_def createProcess_alloc_def callFunction_def requestIO_def
  completeIO_def terminateProcess_def removeFromQueue_def init_def INT_MAX_def Let_def

subsection \<open>The loops\<close>

lemma requestIO_loop_eq:
  "requestIO_loop p q newQueue ioQ found =
     (newQueue @ filter (\<lambda>a. a \<noteq> p) q, ioQ @ filter (\<lambda>a. a = p) q, found \<or> p \<in> set q)"
  by (induction q arbitrary: newQueue ioQ found) auto

lemma filter_eq_distinct:
  "distinct q \<Longrightarrow> p \<in> set q \<Longrightarrow> filter (\<lambda>a. a = p) q = [p]"
  by (induction q) (auto simp: filter_empty_conv)

lemma filter_eq_absent: "p \<notin> set q \<Longrightarrow> filter (\<lambda>a. a = p) q = []"
  by (induction q) auto

lemma filter_neq_absent: "p \<notin> set q \<Longrightarrow> filter (\<lambda>a. a \<noteq> p) q = q"
  by (induction q) auto

lemma removeFromQueue_loop_eq:
  "removeFromQueue_loop p q temp = temp @ filter (\<lambda>a. a \<noteq> p) q"
  by (induction q arbitrary: temp) auto

lemma removeFromQueue_eq: "removeFromQueue q p = filter (\<lambda>a. a \<noteq> p) q"
  by (simp add: removeFromQueue_def removeFromQueue_loop_eq)

lemma completeIO_loop_eq:
  "\<forall>a \<in> set q. h a \<noteq> None \<Longrightarrow>
   completeIO_loop h i q newIOQueue readyQ found =
     Inr (newIOQueue @ filter (\<lambda>a. \<forall>p. h a = Some p \<longrightarrow> pid p \<noteq> i) q,
          readyQ @ filter (\<lambda>a. \<exists>p. h a = Some p \<and> pid p = i) q,
          found \<or> (\<exists>a \<in> set q. \<exists>p. h a = Some p \<and> pid p = i))"
  by (induction q arbitrary: newIOQueue readyQ found) auto

subsection \<open>The invariant and its preservation\<close>

lemma registry_inv_init: "registry_inv init"
  by (simp add: registry_inv_def store_inv_def queue_inv_def counter_inv_def tree_inv_def init_def)



lemma callFunction_state:
  assumes "callFunction i f s = Inr (s', out)"
  shows "(processMap s i = None \<and> s' = s) \<or>
         (\<exists>a p. processMap s i = Some a \<and> heap s a = Some p \<and>
                s' = s\<lparr>heap := (heap s)(a \<mapsto> p\<lparr>callStack := f # callStack p\<rparr>)\<rparr>)"
  using assms unfolding callFunction_def by (auto split: option.splits)

lemma store_invD1: "store_inv s \<Longrightarrow> processMap s i = Some a \<Longrightarrow> \<exists>p. heap s a = Some p \<and> pid p = i"
  by (simp add: store_inv_def)

lemma store_invD2: "store_inv s \<Longrightarrow> heap s a = Some p \<Longrightarrow> processMap s (pid p) = Some a"
  by (simp add: store_inv_def)

lemma tree_invD:
  "tree_inv s \<Longrightarrow> heap s a = Some p \<Longrightarrow> c \<in> set (children p) \<Longrightarrow>
     a < c \<and> (\<exists>q. heap s c = Some q \<and> parent q = Some a)"
  unfolding tree_inv_def by blast

lemma tree_invD2: "tree_inv s \<Longrightarrow> heap s c = Some q \<Longrightarrow> parent q = Some a \<Longrightarrow> a < c"
  unfolding tree_inv_def by blast

lemma inv_heap_callStack:
  assumes "registry_inv s" "heap s a = Some p"
  shows "registry_inv (s\<lparr>heap := (heap s)(a \<mapsto> p\<lparr>callStack := cs\<rparr>)\<rparr>)"
proof -
  let ?s = "s\<lparr>heap := (heap s)(a \<mapsto> p\<lparr>callStack := cs\<rparr>)\<rparr>"
  from assms(1) have st: "store_inv s" and qu: "queue_inv s" and co: "counter_inv s"
    and tr: "tree_inv s" by (simp_all add: registry_inv_def)
  have 1: "store_inv ?s"
    unfolding store_inv_def
  proof (intro conjI allI impI)
    fix i b assume "processMap ?s i = Some b"
    then have "\<exists>q. heap s b = Some q \<and> pid q = i" using st by (simp add: store_inv_def)
    then show "\<exists>q. heap ?s b = Some q \<and> pid q = i" using assms(2) by (cases "b = a") auto
  next
    fix b q assume "heap ?s b = Some q"
    then have "\<exists>q'. heap s b = Some q' \<and> pid q' = pid q"
      using assms(2) by (cases "b = a") auto
    then obtain q' where "heap s b = Some q'" "pid q' = pid q" by blast
    then show "processMap ?s (pid q) = Some b" using store_invD2[OF st, of b q'] by simp
  qed
  have 2: "queue_inv ?s" using qu assms(2) unfolding queue_inv_def by auto
  have 3: "counter_inv ?s" using co assms(2) unfolding counter_inv_def by auto
  have 4: "tree_inv ?s"
  proof -
    have "heap ?s r \<noteq> None" if "root ?s = Some r" for r
      using that tr by (simp add: tree_inv_def)
    moreover have "b < c \<and> (\<exists>q. heap ?s c = Some q \<and> parent q = Some b)"
      if h: "heap ?s b = Some q" and c: "c \<in> set (children q)" for b q c
    proof -
      from h assms(2) have "\<exists>q'. heap s b = Some q' \<and> children q' = children q"
        by (cases "b = a") auto
      then obtain q' where "heap s b = Some q'" "c \<in> set (children q')" using c by auto
      then have "b < c \<and> (\<exists>q. heap s c = Some q \<and> parent q = Some b)"
        by (rule tree_invD[OF tr])
      then show ?thesis using assms(2) by (cases "c = a") auto
    qed
    moreover have "b < c" if h: "heap ?s c = Some q" and c: "parent q = Some b" for b q c
    proof -
      from h assms(2) have "\<exists>q'. heap s c = Some q' \<and> parent q' = parent q"
        by (cases "c = a") auto
      then show ?thesis using c tree_invD2[OF tr, of c _ b] by auto
    qed
    ultimately show ?thesis unfolding tree_inv_def by blast
  qed
  show ?thesis using 1 2 3 4 by (simp add: registry_inv_def)
qed

lemma callFunction_inv:
  assumes "registry_inv s" "callFunction i f s = Inr (s', out)"
  shows "registry_inv s'"
  using callFunction_state[OF assms(2)] assms(1) by (auto intro: inv_heap_callStack)

lemma requestIO_state:
  assumes "requestIO i s = Inr (s', out)"
  shows "(processMap s i = None \<and> s' = s) \<or>
         (\<exists>p. processMap s i = Some p \<and>
              s' = s\<lparr>readyQueue := filter (\<lambda>a. a \<noteq> p) (readyQueue s),
                      ioQueue := ioQueue s @ filter (\<lambda>a. a = p) (readyQueue s)\<rparr>)"
  using assms unfolding requestIO_def requestIO_loop_eq by (auto split: option.splits)

lemma inv_move_to_io:
  assumes "registry_inv s"
  shows "registry_inv (s\<lparr>readyQueue := filter (\<lambda>a. a \<noteq> p) (readyQueue s),
                      ioQueue := ioQueue s @ filter (\<lambda>a. a = p) (readyQueue s)\<rparr>)"
proof -
  let ?s = "s\<lparr>readyQueue := filter (\<lambda>a. a \<noteq> p) (readyQueue s),
                      ioQueue := ioQueue s @ filter (\<lambda>a. a = p) (readyQueue s)\<rparr>"
  have 1: "store_inv ?s" using assms by (simp add: inv_defs)
  have 2: "queue_inv ?s" using assms by (auto simp: inv_defs)
  have 3: "counter_inv ?s" using assms by (simp add: inv_defs)
  have 4: "tree_inv ?s" using assms by (simp add: inv_defs)
  show ?thesis using 1 2 3 4 by (simp add: registry_inv_def)
qed

lemma requestIO_inv:
  assumes "registry_inv s" "requestIO i s = Inr (s', out)"
  shows "registry_inv s'"
  using requestIO_state[OF assms(2)] assms(1) by (auto intro: inv_move_to_io)


lemma counter_invD1: "counter_inv s \<Longrightarrow> processMap s i = Some a \<Longrightarrow> 1 \<le> i \<and> i < pidCounter s"
  unfolding counter_inv_def by blast

lemma counter_invD2: "counter_inv s \<Longrightarrow> heap s a = Some p \<Longrightarrow> a < nextAddr s"
  unfolding counter_inv_def by blast

lemma fresh_pid: "counter_inv s \<Longrightarrow> processMap s (pidCounter s) = None"
  using counter_invD1[of s "pidCounter s"] by (cases "processMap s (pidCounter s)") auto

lemma fresh_addr: "counter_inv s \<Longrightarrow> heap s (nextAddr s) = None"
  using counter_invD2[of s "nextAddr s"] by (cases "heap s (nextAddr s)") auto

lemma no_pid_minus_one: "counter_inv s \<Longrightarrow> processMap s (- 1) = None"
  using counter_invD1[of s "- 1"] by (cases "processMap s (- 1)") auto

lemma createProcess_alloc_noparent:
  assumes "registry_inv s" "pidCounter s \<noteq> INT_MAX" "processMap s parentPID = None"
  shows "createProcess_alloc nm parentPID s =
           Inr (s\<lparr>pidCounter := pidCounter s + 1,
                  root := (if root s = None then Some (nextAddr s) else root s),
                  processMap := (processMap s)(pidCounter s \<mapsto> nextAddr s),
                  readyQueue := readyQueue s @ [nextAddr s],
                  heap := (heap s)(nextAddr s \<mapsto>
                            \<lparr>pid = pidCounter s, name = nm, parent = None, children = [],
                             callStack = []\<rparr>),
                  nextAddr := Suc (nextAddr s)\<rparr>, nextAddr s)"
proof -
  from assms(1) have co: "counter_inv s" by (simp add: registry_inv_def)
  show ?thesis
    using assms(2,3) fresh_pid[OF co]
    by (simp add: createProcess_alloc_def Let_def)
qed

lemma createProcess_alloc_parent:
  assumes "registry_inv s" "pidCounter s \<noteq> INT_MAX" "processMap s parentPID = Some pa"
    "heap s pa = Some pp"
  shows "createProcess_alloc nm parentPID s =
           Inr (s\<lparr>pidCounter := pidCounter s + 1,
                  processMap := (processMap s)(pidCounter s \<mapsto> nextAddr s),
                  readyQueue := readyQueue s @ [nextAddr s],
                  heap := (heap s)(nextAddr s \<mapsto>
                            \<lparr>pid = pidCounter s, name = nm, parent = Some pa, children = [],
                             callStack = []\<rparr>,
                            pa \<mapsto> pp\<lparr>children := children pp @ [nextAddr s]\<rparr>),
                  nextAddr := Suc (nextAddr s)\<rparr>, nextAddr s)"
proof -
  from assms(1) have co: "counter_inv s" by (simp add: registry_inv_def)
  have ne: "parentPID \<noteq> - 1" using no_pid_minus_one[OF co] assms(3) by auto
  have pa: "pa \<noteq> nextAddr s" using fresh_addr[OF co] assms(4) by auto
  show ?thesis
    using assms(2,3,4) fresh_pid[OF co] ne pa
    by (simp add: createProcess_alloc_def Let_def)
qed


lemma queue_inv_dom: "queue_inv s \<Longrightarrow> a \<in> set (readyQueue s) \<or> a \<in> set (ioQueue s) \<Longrightarrow> heap s a \<noteq> None"
  unfolding queue_inv_def by (metis Un_iff domIff)

lemma inv_create_noparent:
  assumes "registry_inv s"
  shows "registry_inv (s\<lparr>pidCounter := pidCounter s + 1,
                  root := (if root s = None then Some (nextAddr s) else root s),
                  processMap := (processMap s)(pidCounter s \<mapsto> nextAddr s),
                  readyQueue := readyQueue s @ [nextAddr s],
                  heap := (heap s)(nextAddr s \<mapsto>
                            \<lparr>pid = pidCounter s, name = nm, parent = None, children = [],
                             callStack = []\<rparr>),
                  nextAddr := Suc (nextAddr s)\<rparr>)" (is "registry_inv ?s")
proof -
  from assms(1) have st: "store_inv s" and qu: "queue_inv s" and co: "counter_inv s"
    and tr: "tree_inv s" by (simp_all add: registry_inv_def)
  note fp = fresh_pid[OF co] and fa = fresh_addr[OF co]
  have 1: "store_inv ?s"
  proof -
    have "\<exists>p. heap ?s a = Some p \<and> pid p = i" if "processMap ?s i = Some a" for i a
    proof (cases "i = pidCounter s")
      case True then show ?thesis using that by simp
    next
      case False
      then have "processMap s i = Some a" using that by simp
      from store_invD1[OF st this] show ?thesis using fa by auto
    qed
    moreover have "processMap ?s (pid p) = Some a" if "heap ?s a = Some p" for a p
    proof (cases "a = nextAddr s")
      case True then show ?thesis using that by auto
    next
      case False
      then have h: "heap s a = Some p" using that by simp
      from store_invD2[OF st h] fp show ?thesis by auto
    qed
    ultimately show ?thesis unfolding store_inv_def by blast
  qed
  have 2: "queue_inv ?s"
    using qu fa queue_inv_dom[OF qu, of "nextAddr s"] unfolding queue_inv_def by auto
  have 3: "counter_inv ?s"
  proof -
    have "1 \<le> i \<and> i < pidCounter ?s" if "processMap ?s i = Some a" for i a
      using that counter_invD1[OF co, of i a] co
      by (cases "i = pidCounter s") (auto simp: counter_inv_def)
    moreover have "a < nextAddr ?s" if "heap ?s a = Some p" for a p
      using that counter_invD2[OF co, of a p] by (cases "a = nextAddr s") auto
    moreover have "1 \<le> pidCounter ?s" using co by (simp add: counter_inv_def)
    ultimately show ?thesis unfolding counter_inv_def by blast
  qed
  have 4: "tree_inv ?s"
  proof -
    have "heap ?s r \<noteq> None" if "root ?s = Some r" for r
      using that tr by (auto simp: tree_inv_def split: if_splits)
    moreover have "a < c \<and> (\<exists>q. heap ?s c = Some q \<and> parent q = Some a)"
      if h: "heap ?s a = Some p" and c: "c \<in> set (children p)" for a p c
    proof (cases "a = nextAddr s")
      case True then show ?thesis using h c by auto
    next
      case False
      then have "heap s a = Some p" using h by simp
      from tree_invD[OF tr this c] show ?thesis using fa by auto
    qed
    moreover have "a < c" if h: "heap ?s c = Some q" and c: "parent q = Some a" for a q c
      using h c tree_invD2[OF tr, of c q a] by (cases "c = nextAddr s") auto
    ultimately show ?thesis unfolding tree_inv_def by blast
  qed
  show ?thesis using 1 2 3 4 by (simp add: registry_inv_def)
qed

lemma inv_create_parent:
  assumes "registry_inv s" "heap s pa = Some pp"
  shows "registry_inv (s\<lparr>pidCounter := pidCounter s + 1,
                  processMap := (processMap s)(pidCounter s \<mapsto> nextAddr s),
                  readyQueue := readyQueue s @ [nextAddr s],
                  heap := (heap s)(nextAddr s \<mapsto>
                            \<lparr>pid = pidCounter s, name = nm, parent = Some pa, children = [],
                             callStack = []\<rparr>,
                            pa \<mapsto> pp\<lparr>children := children pp @ [nextAddr s]\<rparr>),
                  nextAddr := Suc (nextAddr s)\<rparr>)" (is "registry_inv ?s")
proof -
  from assms(1) have st: "store_inv s" and qu: "queue_inv s" and co: "counter_inv s"
    and tr: "tree_inv s" by (simp_all add: registry_inv_def)
  note fp = fresh_pid[OF co] and fa = fresh_addr[OF co]
  have pa: "pa \<noteq> nextAddr s" "pa < nextAddr s"
    using counter_invD2[OF co assms(2)] by auto
  have 1: "store_inv ?s"
  proof -
    have "\<exists>p. heap ?s a = Some p \<and> pid p = i" if "processMap ?s i = Some a" for i a
    proof (cases "i = pidCounter s")
      case True then show ?thesis using that pa by simp
    next
      case False
      then have "processMap s i = Some a" using that by simp
      from store_invD1[OF st this] show ?thesis using fa assms(2) by (cases "a = pa") auto
    qed
    moreover have "processMap ?s (pid p) = Some a" if "heap ?s a = Some p" for a p
    proof (cases "a = nextAddr s")
      case True then show ?thesis using that pa by auto
    next
      case False
      then have "\<exists>p'. heap s a = Some p' \<and> pid p' = pid p"
        using that assms(2) by (cases "a = pa") auto
      then obtain p' where h: "heap s a = Some p'" and e: "pid p' = pid p" by blast
      from store_invD2[OF st h] fp e show ?thesis by auto
    qed
    ultimately show ?thesis unfolding store_inv_def by blast
  qed
  have 2: "queue_inv ?s"
    using qu fa assms(2) queue_inv_dom[OF qu, of "nextAddr s"] unfolding queue_inv_def by auto
  have 3: "counter_inv ?s"
  proof -
    have "1 \<le> i \<and> i < pidCounter ?s" if "processMap ?s i = Some a" for i a
      using that counter_invD1[OF co, of i a] co
      by (cases "i = pidCounter s") (auto simp: counter_inv_def)
    moreover have "a < nextAddr ?s" if "heap ?s a = Some p" for a p
      using that counter_invD2[OF co, of a] pa by (auto split: if_splits)
    moreover have "1 \<le> pidCounter ?s" using co by (simp add: counter_inv_def)
    ultimately show ?thesis unfolding counter_inv_def by blast
  qed
  have 4: "tree_inv ?s"
  proof -
    have "heap ?s r \<noteq> None" if "root ?s = Some r" for r
      using that tr by (auto simp: tree_inv_def split: if_splits)
    moreover have "a < c \<and> (\<exists>q. heap ?s c = Some q \<and> parent q = Some a)"
      if h: "heap ?s a = Some p" and c: "c \<in> set (children p)" for a p c
    proof (cases "c = nextAddr s")
      case True
      then have "a = pa"
        using h c pa tree_invD[OF tr, of a p c] fa by (auto split: if_splits)
      then show ?thesis using True pa by auto
    next
      case False
      have an: "a \<noteq> nextAddr s" using h c pa by (auto split: if_splits)
      then have "\<exists>p'. heap s a = Some p' \<and> c \<in> set (children p')"
        using h c False assms(2) by (cases "a = pa") auto
      then obtain p' where "heap s a = Some p'" "c \<in> set (children p')" by blast
      from tree_invD[OF tr this] show ?thesis using False assms(2) by (cases "c = pa") auto
    qed
    moreover have "a < c" if h: "heap ?s c = Some q" and c: "parent q = Some a" for a q c
    proof (cases "c = nextAddr s")
      case True then show ?thesis using h c pa by auto
    next
      case False
      then have "\<exists>q'. heap s c = Some q' \<and> parent q' = parent q"
        using h assms(2) by (cases "c = pa") auto
      then show ?thesis using c tree_invD2[OF tr, of c _ a] by auto
    qed
    ultimately show ?thesis unfolding tree_inv_def by blast
  qed
  show ?thesis using 1 2 3 4 by (simp add: registry_inv_def)
qed


lemma createProcess_alloc_overflow:
  "pidCounter s = INT_MAX \<Longrightarrow> createProcess_alloc nm parentPID s = Inl SignedOverflow"
  by (simp add: createProcess_alloc_def Let_def)

lemma createProcess_alloc_inv:
  assumes "registry_inv s" "createProcess_alloc nm parentPID s = Inr (s', rawPtr)"
  shows "registry_inv s'"
proof -
  from assms(1) have st: "store_inv s" by (simp add: registry_inv_def)
  have ne: "pidCounter s \<noteq> INT_MAX"
    using assms(2) createProcess_alloc_overflow[of s nm parentPID] by auto
  show ?thesis
  proof (cases "processMap s parentPID")
    case None
    from createProcess_alloc_noparent[OF assms(1) ne None, of nm] assms(2)
    show ?thesis using inv_create_noparent[OF assms(1), of nm] by simp
  next
    case (Some pa)
    from store_invD1[OF st Some] obtain pp where pp: "heap s pa = Some pp" by blast
    from createProcess_alloc_parent[OF assms(1) ne Some pp, of nm] assms(2)
    show ?thesis using inv_create_parent[OF assms(1) pp, of nm] by simp
  qed
qed

lemma createProcess_inv:
  assumes "registry_inv s" "createProcess nm parentPID s = Inr (s', out)"
  shows "registry_inv s'"
  using assms createProcess_alloc_inv[OF assms(1), of nm parentPID s']
  unfolding createProcess_def by (auto split: sum.splits option.splits)

lemma completeIO_loop_inv:
  assumes "registry_inv s" "set q \<subseteq> set (ioQueue s)"
  shows "completeIO_loop (heap s) i q newIOQueue readyQ found =
           Inr (newIOQueue @ filter (\<lambda>a. processMap s i \<noteq> Some a) q,
                readyQ @ filter (\<lambda>a. processMap s i = Some a) q,
                found \<or> (\<exists>a \<in> set q. processMap s i = Some a))"
proof -
  from assms(1) have st: "store_inv s" and qu: "queue_inv s" by (simp_all add: registry_inv_def)
  have live: "heap s a \<noteq> None" if "a \<in> set q" for a
    using that assms(2) queue_inv_dom[OF qu, of a] by auto
  have eq: "(\<exists>p. heap s a = Some p \<and> pid p = i) \<longleftrightarrow> processMap s i = Some a" if "a \<in> set q" for a
    using live[OF that] store_invD1[OF st, of i a] store_invD2[OF st, of a] by auto
  then have eq': "(\<forall>p. heap s a = Some p \<longrightarrow> pid p \<noteq> i) \<longleftrightarrow> processMap s i \<noteq> Some a" if "a \<in> set q" for a
    using that by blast
  have f1: "filter (\<lambda>a. \<forall>p. heap s a = Some p \<longrightarrow> pid p \<noteq> i) q = filter (\<lambda>a. processMap s i \<noteq> Some a) q"
    by (rule filter_cong) (auto simp: eq')
  have f2: "filter (\<lambda>a. \<exists>p. heap s a = Some p \<and> pid p = i) q = filter (\<lambda>a. processMap s i = Some a) q"
    by (rule filter_cong) (auto simp: eq)
  have f3: "(\<exists>a \<in> set q. \<exists>p. heap s a = Some p \<and> pid p = i) \<longleftrightarrow> (\<exists>a \<in> set q. processMap s i = Some a)"
    using eq by blast
  have "\<forall>a \<in> set q. heap s a \<noteq> None" using live by blast
  from completeIO_loop_eq[OF this, of i newIOQueue readyQ found] show ?thesis
    by (simp only: f1 f2 f3)
qed

lemma inv_move_to_ready:
  assumes "registry_inv s"
  shows "registry_inv (s\<lparr>readyQueue := readyQueue s @ filter P (ioQueue s),
                      ioQueue := filter (\<lambda>a. \<not> P a) (ioQueue s)\<rparr>)"
proof -
  let ?s = "s\<lparr>readyQueue := readyQueue s @ filter P (ioQueue s),
                      ioQueue := filter (\<lambda>a. \<not> P a) (ioQueue s)\<rparr>"
  have 1: "store_inv ?s" using assms by (simp add: inv_defs)
  have 2: "queue_inv ?s" using assms by (auto simp: inv_defs)
  have 3: "counter_inv ?s" using assms by (simp add: inv_defs)
  have 4: "tree_inv ?s" using assms by (simp add: inv_defs)
  show ?thesis using 1 2 3 4 by (simp add: registry_inv_def)
qed

lemma completeIO_state:
  assumes "registry_inv s"
  shows "\<exists>out. completeIO i s =
           Inr (s\<lparr>readyQueue := readyQueue s @ filter (\<lambda>a. processMap s i = Some a) (ioQueue s),
                  ioQueue := filter (\<lambda>a. \<not> processMap s i = Some a) (ioQueue s)\<rparr>, out)"
  unfolding completeIO_def using completeIO_loop_inv[OF assms, of "ioQueue s" i "[]" "readyQueue s" False]
  by simp

lemma completeIO_inv:
  assumes "registry_inv s" "completeIO i s = Inr (s', out)"
  shows "registry_inv s'"
  using completeIO_state[OF assms(1), of i] assms(2)
    inv_move_to_ready[OF assms(1), of "\<lambda>a. processMap s i = Some a"] by auto


lemma terminateProcess_noparent:
  assumes "processMap s i = Some p" "heap s p = Some pr" "parent pr = None"
  shows "terminateProcess i s =
           Inr (s\<lparr>root := (if root s = Some p then None else root s),
                  processMap := (processMap s)(i := None),
                  readyQueue := filter (\<lambda>a. a \<noteq> p) (readyQueue s),
                  ioQueue := filter (\<lambda>a. a \<noteq> p) (ioQueue s),
                  heap := (heap s)(p := None)\<rparr>,
                ''Process '' @ show_int i @ '' terminated.'' @ nl)"
  using assms by (auto simp: terminateProcess_def Let_def removeFromQueue_eq)

lemma terminateProcess_parent:
  assumes "processMap s i = Some p" "heap s p = Some pr" "parent pr = Some pa"
    "heap s pa = Some pp"
  shows "terminateProcess i s =
           Inr (s\<lparr>root := (if root s = Some p then None else root s),
                  processMap := (processMap s)(i := None),
                  readyQueue := filter (\<lambda>a. a \<noteq> p) (readyQueue s),
                  ioQueue := filter (\<lambda>a. a \<noteq> p) (ioQueue s),
                  heap := (heap s)(pa \<mapsto> pp\<lparr>children := removeAll p (children pp)\<rparr>,
                                   p := None)\<rparr>,
                ''Process '' @ show_int i @ '' terminated.'' @ nl)"
  using assms by (auto simp: terminateProcess_def Let_def removeFromQueue_eq)

lemma terminateProcess_dangling:
  assumes "processMap s i = Some p" "heap s p = Some pr" "parent pr = Some pa"
    "heap s pa = None"
  shows "terminateProcess i s = Inl UseAfterFree"
  using assms by (simp add: terminateProcess_def Let_def)

lemma terminateProcess_absent:
  assumes "processMap s i = None"
  shows "terminateProcess i s = Inr (s, ''Process not found.'' @ nl)"
  using assms by (simp add: terminateProcess_def)


lemma inv_terminate:
  assumes inv: "registry_inv s" and i: "processMap s i = Some p" and p: "heap s p = Some pr"
    and h': "parent pr = None \<and> h' = (heap s)(p := None) \<or>
             (\<exists>pa pp. parent pr = Some pa \<and> heap s pa = Some pp \<and>
                h' = (heap s)(pa \<mapsto> pp\<lparr>children := removeAll p (children pp)\<rparr>, p := None))"
  shows "registry_inv (s\<lparr>root := (if root s = Some p then None else root s),
                  processMap := (processMap s)(i := None),
                  readyQueue := filter (\<lambda>a. a \<noteq> p) (readyQueue s),
                  ioQueue := filter (\<lambda>a. a \<noteq> p) (ioQueue s),
                  heap := h'\<rparr>)" (is "registry_inv ?s")
proof -
  from inv have st: "store_inv s" and qu: "queue_inv s" and co: "counter_inv s"
    and tr: "tree_inv s" by (simp_all add: registry_inv_def)
  have pidp: "pid pr = i" using store_invD1[OF st i] p by auto
  have gone: "h' p = None" using h' by auto
  have none: "h' a = None" if "heap s a = None" for a
    using that h' by (cases "a = p") auto
  have rel: "\<exists>q'. h' a = Some q' \<and> pid q' = pid q \<and> parent q' = parent q \<and>
                set (children q') = set (children q) - {p}"
    if a: "a \<noteq> p" and q: "heap s a = Some q" for a q
  proof -
    have notin: "p \<notin> set (children q)" if "parent pr \<noteq> Some a"
      using tree_invD[OF tr q, of p] p that by auto
    from h' show ?thesis
    proof (elim disjE conjE exE)
      assume "parent pr = None" "h' = (heap s)(p := None)"
      then show ?thesis using a q notin by auto
    next
      fix pa pp
      assume *: "parent pr = Some pa" "heap s pa = Some pp"
        "h' = (heap s)(pa \<mapsto> pp\<lparr>children := removeAll p (children pp)\<rparr>, p := None)"
      show ?thesis
      proof (cases "a = pa")
        case True then show ?thesis using * a q by auto
      next
        case False then show ?thesis using * a q notin by auto
      qed
    qed
  qed
  have old: "a \<noteq> p \<and> (\<exists>q. heap s a = Some q \<and> pid q' = pid q \<and> parent q' = parent q \<and>
                set (children q') = set (children q) - {p})"
    if "h' a = Some q'" for a q'
  proof -
    have a: "a \<noteq> p" using that gone by auto
    have "heap s a \<noteq> None" using none[of a] that by auto
    then obtain q where q: "heap s a = Some q" by auto
    from rel[OF a q] that show ?thesis using a q by auto
  qed
  have 1: "store_inv ?s"
  proof -
    have "\<exists>q. heap ?s a = Some q \<and> pid q = j" if "processMap ?s j = Some a" for j a
    proof -
      from that have j: "j \<noteq> i" "processMap s j = Some a" by (auto split: if_splits)
      from store_invD1[OF st j(2)] obtain q where q: "heap s a = Some q" "pid q = j" by blast
      have "a \<noteq> p" using q p pidp j(1) by auto
      from rel[OF this q(1)] q(2) show ?thesis by auto
    qed
    moreover have "processMap ?s (pid q') = Some a" if "heap ?s a = Some q'" for a q'
    proof -
      from that have "h' a = Some q'" by simp
      from old[OF this] obtain q where a: "a \<noteq> p" and q: "heap s a = Some q" "pid q' = pid q"
        by blast
      from store_invD2[OF st q(1)] have m: "processMap s (pid q) = Some a" .
      then have "pid q \<noteq> i" using i a by auto
      then show ?thesis using m q(2) by simp
    qed
    ultimately show ?thesis unfolding store_inv_def by blast
  qed
  have dom: "dom h' = dom (heap s) - {p}"
  proof (rule set_eqI)
    fix a show "a \<in> dom h' \<longleftrightarrow> a \<in> dom (heap s) - {p}"
      using old[of a] rel[of a] by (cases "a = p") (auto simp: gone)
  qed
  have 2: "queue_inv ?s"
    using qu dom unfolding queue_inv_def by auto
  have 3: "counter_inv ?s"
  proof -
    have "1 \<le> j \<and> j < pidCounter ?s" if "processMap ?s j = Some a" for j a
      using that counter_invD1[OF co, of j a] by (auto split: if_splits)
    moreover have "a < nextAddr ?s" if "heap ?s a = Some q'" for a q'
      using that old[of a q'] counter_invD2[OF co, of a] by auto
    moreover have "1 \<le> pidCounter ?s" using co by (simp add: counter_inv_def)
    ultimately show ?thesis unfolding counter_inv_def by blast
  qed
  have 4: "tree_inv ?s"
  proof -
    have "heap ?s r \<noteq> None" if "root ?s = Some r" for r
    proof -
      from that have r: "root s = Some r" "r \<noteq> p" by (auto split: if_splits)
      then obtain q where "heap s r = Some q" using tr unfolding tree_inv_def by auto
      from rel[OF r(2) this] show ?thesis by auto
    qed
    moreover have "a < c \<and> (\<exists>q. heap ?s c = Some q \<and> parent q = Some a)"
      if h: "heap ?s a = Some q'" and c: "c \<in> set (children q')" for a q' c
    proof -
      from h have "h' a = Some q'" by simp
      from old[OF this] c obtain q where q: "heap s a = Some q" "c \<in> set (children q)" "c \<noteq> p"
        by auto
      from tree_invD[OF tr q(1,2)] obtain qc where qc: "a < c" "heap s c = Some qc" "parent qc = Some a"
        by blast
      from rel[OF q(3) qc(2)] qc show ?thesis by auto
    qed
    moreover have "a < c" if h: "heap ?s c = Some q'" and c: "parent q' = Some a" for a q' c
    proof -
      from h have "h' c = Some q'" by simp
      from old[OF this] c obtain q where "heap s c = Some q" "parent q = Some a" by auto
      then show ?thesis by (rule tree_invD2[OF tr])
    qed
    ultimately show ?thesis unfolding tree_inv_def by blast
  qed
  show ?thesis using 1 2 3 4 by (simp add: registry_inv_def)
qed

lemma terminateProcess_inv:
  assumes "registry_inv s" "terminateProcess i s = Inr (s', out)"
  shows "registry_inv s'"
proof (cases "processMap s i")
  case None
  then show ?thesis using assms terminateProcess_absent[OF None] by simp
next
  case (Some p)
  from assms(1) have st: "store_inv s" by (simp add: registry_inv_def)
  from store_invD1[OF st Some] obtain pr where pr: "heap s p = Some pr" by blast
  show ?thesis
  proof (cases "parent pr")
    case None
    from terminateProcess_noparent[OF Some pr None] assms(2)
      inv_terminate[OF assms(1) Some pr, of "(heap s)(p := None)"] None
    show ?thesis by auto
  next
    case pa: (Some pa)
    show ?thesis
    proof (cases "heap s pa")
      case None
      from terminateProcess_dangling[OF Some pr pa None] assms(2) show ?thesis by simp
    next
      case pp: (Some pp)
      from terminateProcess_parent[OF Some pr pa pp] assms(2)
        inv_terminate[OF assms(1) Some pr,
          of "(heap s)(pa \<mapsto> pp\<lparr>children := removeAll p (children pp)\<rparr>, p := None)"] pa pp
      show ?thesis by auto
    qed
  qed
qed

lemma step_inv:
  assumes "registry_inv s" "step x s = Inr (s', out)"
  shows "registry_inv s'"
  using assms
  by (cases x) (auto intro: createProcess_inv callFunction_inv requestIO_inv completeIO_inv terminateProcess_inv)

lemma run_inv:
  assumes "registry_inv s" "run xs s = Inr s'"
  shows "registry_inv s'"
  using assms
proof (induction xs arbitrary: s)
  case Nil then show ?case by simp
next
  case (Cons x xs)
  then show ?case by (auto split: sum.splits intro: step_inv)
qed

lemma reachable_inv: "run xs init = Inr s \<Longrightarrow> registry_inv s"
  using run_inv[OF registry_inv_init] .

section \<open>Example runs\<close>

lemma run_two_processes:
  "run [CreateProcess ''init'' (- 1), CreateProcess ''child'' 1] init = Inr two_processes"
  by (simp add: ops_defs two_processes_def fun_eq_iff)

lemma run_child_waiting:
  "run [CreateProcess ''init'' (- 1), CreateProcess ''child'' 1, RequestIO 2] init =
     Inr child_waiting"
  by (simp add: ops_defs two_processes_def child_waiting_def fun_eq_iff)

lemma run_orphan_ready:
  "run [CreateProcess ''init'' (- 1), CreateProcess ''child'' 1, RequestIO 2, CompleteIO 2,
        TerminateProcess 1] init = Inr orphan_ready"
  by (simp add: ops_defs orphan_ready_def fun_eq_iff)

lemmas show_defs = show_int_def show_nat.simps

section \<open>Queue membership\<close>

text \<open>
  C1. In every state reached by a sequence of createProcess, callFunction, requestIO,
  completeIO and terminateProcess calls, no process is twice in a queue, every process of
  the store (\<open>processMap\<close>) is in exactly one of the ready queue and the I/O queue, and
  a process that is not in the store (never created, or terminated) is in neither.
\<close>

theorem live_process_in_exactly_one_queue:
  assumes "run xs init = Inr s"
  shows "distinct (readyQueue s) \<and> distinct (ioQueue s) \<and>
         (\<forall>i a. processMap s i = Some a \<longrightarrow>
                (a \<in> set (readyQueue s)) \<noteq> (a \<in> set (ioQueue s))) \<and>
         (\<forall>a. (\<forall>i. processMap s i \<noteq> Some a) \<longrightarrow>
              a \<notin> set (readyQueue s) \<and> a \<notin> set (ioQueue s)) \<and>
         (\<forall>a \<in> set (readyQueue s) \<union> set (ioQueue s).
            \<exists>p. heap s a = Some p \<and> processMap s (pid p) = Some a)"
proof -
  from reachable_inv[OF assms] have st: "store_inv s" and qu: "queue_inv s"
    by (simp_all add: registry_inv_def)
  from qu have d: "distinct (readyQueue s)" "distinct (ioQueue s)"
    and disj: "set (readyQueue s) \<inter> set (ioQueue s) = {}"
    and un: "set (readyQueue s) \<union> set (ioQueue s) = dom (heap s)"
    by (simp_all add: queue_inv_def)
  have live: "(a \<in> set (readyQueue s)) \<noteq> (a \<in> set (ioQueue s))"
    if "processMap s i = Some a" for i a
  proof -
    from store_invD1[OF st that] have "a \<in> dom (heap s)" by auto
    then show ?thesis using un disj by blast
  qed
  have dead: "a \<notin> set (readyQueue s) \<and> a \<notin> set (ioQueue s)"
    if n: "\<forall>i. processMap s i \<noteq> Some a" for a
  proof -
    have "heap s a = None"
    proof (cases "heap s a")
      case (Some q)
      from store_invD2[OF st Some] n show ?thesis by blast
    qed simp
    then show ?thesis using un by blast
  qed
  have owned: "\<exists>p. heap s a = Some p \<and> processMap s (pid p) = Some a"
    if "a \<in> set (readyQueue s) \<union> set (ioQueue s)" for a
  proof -
    from that un obtain p where "heap s a = Some p" by auto
    with store_invD2[OF st this] show ?thesis by blast
  qed
  from d live dead owned show ?thesis by blast
qed

theorem live_process_in_exactly_one_queue_witness:
  "run [CreateProcess ''init'' (- 1), CreateProcess ''child'' 1, RequestIO 2, CompleteIO 2,
        TerminateProcess 1] init = Inr orphan_ready \<and>
   processMap orphan_ready 2 = Some 1 \<and>
   1 \<in> set (readyQueue orphan_ready) \<and> 1 \<notin> set (ioQueue orphan_ready) \<and>
   (\<forall>i. processMap orphan_ready i \<noteq> Some 0) \<and>
   0 \<notin> set (readyQueue orphan_ready) \<and> 0 \<notin> set (ioQueue orphan_ready)"
proof -
  have m: "processMap orphan_ready 2 = Some 1" by (simp add: orphan_ready_def)
  have n: "\<forall>i. processMap orphan_ready i \<noteq> Some 0" by (simp add: orphan_ready_def)
  have r: "1 \<in> set (readyQueue orphan_ready)" by (simp add: orphan_ready_def)
  from live_process_in_exactly_one_queue[OF run_orphan_ready] m n r run_orphan_ready
  show ?thesis by blast
qed

section \<open>Termination\<close>

text \<open>
  What \<^verbatim>\<open>terminateProcess\<close> does on a live process of a reachable state: with no parent
  pointer or a live parent it removes the process from its queue, from the parent's
  children, from the root designation and from the store; with a parent pointer to a
  deleted object it reads that object. A second call on the same identifier finds nothing.
\<close>

lemma terminateProcess_effect:
  assumes "run xs init = Inr s" "processMap s i = Some p"
  shows "\<exists>pr. heap s p = Some pr \<and> pid pr = i \<and>
           (p \<in> set (readyQueue s)) \<noteq> (p \<in> set (ioQueue s)) \<and>
           (case parent pr of
              None \<Rightarrow>
                terminateProcess i s =
                  Inr (s\<lparr>root := (if root s = Some p then None else root s),
                         processMap := (processMap s)(i := None),
                         readyQueue := filter (\<lambda>a. a \<noteq> p) (readyQueue s),
                         ioQueue := filter (\<lambda>a. a \<noteq> p) (ioQueue s),
                         heap := (heap s)(p := None)\<rparr>,
                       ''Process '' @ show_int i @ '' terminated.'' @ nl)
            | Some pa \<Rightarrow>
                (case heap s pa of
                   None \<Rightarrow> terminateProcess i s = Inl UseAfterFree
                 | Some pp \<Rightarrow>
                     terminateProcess i s =
                       Inr (s\<lparr>root := (if root s = Some p then None else root s),
                              processMap := (processMap s)(i := None),
                              readyQueue := filter (\<lambda>a. a \<noteq> p) (readyQueue s),
                              ioQueue := filter (\<lambda>a. a \<noteq> p) (ioQueue s),
                              heap := (heap s)
                                (pa \<mapsto> pp\<lparr>children := removeAll p (children pp)\<rparr>,
                                 p := None)\<rparr>,
                            ''Process '' @ show_int i @ '' terminated.'' @ nl)))"
proof -
  note inv = reachable_inv[OF assms(1)]
  then have st: "store_inv s" and qu: "queue_inv s" by (simp_all add: registry_inv_def)
  from store_invD1[OF st assms(2)] obtain pr where pr: "heap s p = Some pr" "pid pr = i" by blast
  have "p \<in> dom (heap s)" using pr by auto
  then have x: "(p \<in> set (readyQueue s)) \<noteq> (p \<in> set (ioQueue s))"
    using qu unfolding queue_inv_def by auto
  show ?thesis
  proof (cases "parent pr")
    case None
    from terminateProcess_noparent[OF assms(2) pr(1) None] pr x None show ?thesis by simp
  next
    case pa: (Some pa)
    show ?thesis
    proof (cases "heap s pa")
      case None
      from terminateProcess_dangling[OF assms(2) pr(1) pa None] pr x pa None
      show ?thesis by simp
    next
      case (Some pp)
      from terminateProcess_parent[OF assms(2) pr(1) pa Some] pr x pa Some
      show ?thesis by simp
    qed
  qed
qed

lemma terminateProcess_twice:
  assumes "terminateProcess i s = Inr (s', out)" "processMap s i \<noteq> None"
  shows "terminateProcess i s' = Inr (s', ''Process not found.'' @ nl)"
proof -
  have "processMap s' i = None"
    using assms
    by (auto simp: terminateProcess_def Let_def split: option.splits sum.splits if_splits)
  then show ?thesis by (rule terminateProcess_absent)
qed

text \<open>
  C2 says that no operation crashes, and that \<^verbatim>\<open>terminateProcess\<close> in particular is
  safe on a process whose parent was terminated before. The code keeps the child's
  \<^verbatim>\<open>parent\<close> pointer when the parent is deleted, and \<^verbatim>\<open>terminateProcess\<close> on the
  child reads \<^verbatim>\<open>p->parent->children\<close> through it: the run below ends in a read of a
  deleted object.
\<close>

theorem terminate_child_after_parent:
  "run [CreateProcess ''init'' (- 1), CreateProcess ''child'' 1, TerminateProcess 1,
        TerminateProcess 2] init = Inl UseAfterFree"
  by (simp add: ops_defs)

text \<open>
  C3 says what \<^verbatim>\<open>terminateProcess\<close> does in every state in which the process is live.
  In the state the run of section 8 of the specification ends in, process 2 is live and in
  the ready queue, its parent pointer is the address of the deleted process 1, and
  \<^verbatim>\<open>terminateProcess(2)\<close> reads that deleted object instead of removing process 2.
\<close>

theorem terminate_orphan_undefined:
  "run [CreateProcess ''init'' (- 1), CreateProcess ''child'' 1, RequestIO 2, CompleteIO 2,
        TerminateProcess 1] init = Inr orphan_ready \<and>
   processMap orphan_ready 2 = Some 1 \<and>
   heap orphan_ready 1 =
     Some \<lparr>pid = 2, name = ''child'', parent = Some 0, children = [], callStack = []\<rparr> \<and>
   heap orphan_ready 0 = None \<and>
   terminateProcess 2 orphan_ready = Inl UseAfterFree"
  using run_orphan_ready
  by (simp add: orphan_ready_def terminateProcess_def removeFromQueue_def Let_def)

section \<open>Creation\<close>

lemma run_append:
  "run (xs @ ys) s = (case run xs s of Inl e \<Rightarrow> Inl e | Inr s' \<Rightarrow> run ys s')"
  by (induction xs arbitrary: s) (auto split: sum.splits)

lemma churn_round:
  assumes "1 + int k \<noteq> INT_MAX"
  shows "run [CreateProcess [] (- 1), TerminateProcess (int (Suc k))]
           (init\<lparr>pidCounter := 1 + int k, nextAddr := k\<rparr>) =
         Inr (init\<lparr>pidCounter := 1 + int (Suc k), nextAddr := Suc k\<rparr>)"
  using assms
  by (simp add: createProcess_def createProcess_alloc_def terminateProcess_def
      removeFromQueue_def init_def Let_def fun_eq_iff)

lemma run_churn:
  "int k < INT_MAX \<Longrightarrow> run (churn k) init = Inr (init\<lparr>pidCounter := 1 + int k, nextAddr := k\<rparr>)"
proof (induction k)
  case 0
  then show ?case by (simp add: init_def)
next
  case (Suc k)
  then have "run (churn k) init = Inr (init\<lparr>pidCounter := 1 + int k, nextAddr := k\<rparr>)"
    and "1 + int k \<noteq> INT_MAX" by simp_all
  then show ?case using churn_round[of k] by (simp add: run_append)
qed

text \<open>
  C4, as stated, fails where the counter has reached \<open>INT_MAX\<close>: after 2147483646
  rounds of creating and terminating a process, \<^verbatim>\<open>pidCounter++\<close> overflows and
  \<^verbatim>\<open>createProcess\<close> has no defined result.
\<close>

theorem createProcess_overflow_counterexample:
  "run (churn 2147483646) init = Inr (init\<lparr>pidCounter := 2147483647, nextAddr := 2147483646\<rparr>) \<and>
   createProcess ''p'' (- 1) (init\<lparr>pidCounter := 2147483647, nextAddr := 2147483646\<rparr>) =
     Inl SignedOverflow"
proof -
  have "int 2147483646 < INT_MAX" by (simp add: INT_MAX_def)
  from run_churn[OF this]
  have "run (churn 2147483646) init = Inr (init\<lparr>pidCounter := 2147483647, nextAddr := 2147483646\<rparr>)"
    by simp
  moreover have "createProcess ''p'' (- 1) (init\<lparr>pidCounter := 2147483647, nextAddr := 2147483646\<rparr>) =
     Inl SignedOverflow"
    by (simp add: createProcess_def createProcess_alloc_def INT_MAX_def init_def)
  ultimately show ?thesis by blast
qed

text \<open>
  C4, amended. In every reachable state whose counter is below \<open>INT_MAX\<close>,
  \<^verbatim>\<open>createProcess\<close> succeeds for every name and every parent identifier. The
  identifier it takes is the counter's value, which no process of the store has, and the
  object gets a fresh address. If the parent identifier is in the store, the new process
  has that parent and is the last of its children, and the root is left alone. If it is
  not (none was given, or it is unknown), the new process has no parent and becomes the
  root exactly when there is no root. In both cases the process is the last element of
  the ready queue, the counter goes up by one, and the identifier is printed.
\<close>

theorem createProcess_below_INT_MAX:
  assumes "run xs init = Inr s" "pidCounter s < INT_MAX"
  shows "processMap s (pidCounter s) = None \<and> heap s (nextAddr s) = None \<and>
         (processMap s parentPID = None \<longrightarrow>
            createProcess nm parentPID s =
              Inr (s\<lparr>pidCounter := pidCounter s + 1,
                     root := (if root s = None then Some (nextAddr s) else root s),
                     processMap := (processMap s)(pidCounter s \<mapsto> nextAddr s),
                     readyQueue := readyQueue s @ [nextAddr s],
                     heap := (heap s)(nextAddr s \<mapsto>
                               \<lparr>pid = pidCounter s, name = nm, parent = None, children = [],
                                callStack = []\<rparr>),
                     nextAddr := Suc (nextAddr s)\<rparr>,
                   ''Created process: PID='' @ show_int (pidCounter s) @ nl)) \<and>
         (\<forall>pa. processMap s parentPID = Some pa \<longrightarrow>
            (\<exists>pp. heap s pa = Some pp \<and>
               createProcess nm parentPID s =
                 Inr (s\<lparr>pidCounter := pidCounter s + 1,
                        processMap := (processMap s)(pidCounter s \<mapsto> nextAddr s),
                        readyQueue := readyQueue s @ [nextAddr s],
                        heap := (heap s)(nextAddr s \<mapsto>
                                  \<lparr>pid = pidCounter s, name = nm, parent = Some pa,
                                   children = [], callStack = []\<rparr>,
                                  pa \<mapsto> pp\<lparr>children := children pp @ [nextAddr s]\<rparr>),
                        nextAddr := Suc (nextAddr s)\<rparr>,
                      ''Created process: PID='' @ show_int (pidCounter s) @ nl)))"
proof -
  note inv = reachable_inv[OF assms(1)]
  then have st: "store_inv s" and co: "counter_inv s" by (simp_all add: registry_inv_def)
  have ne: "pidCounter s \<noteq> INT_MAX" using assms(2) by simp
  have a: "createProcess nm parentPID s =
              Inr (s\<lparr>pidCounter := pidCounter s + 1,
                     root := (if root s = None then Some (nextAddr s) else root s),
                     processMap := (processMap s)(pidCounter s \<mapsto> nextAddr s),
                     readyQueue := readyQueue s @ [nextAddr s],
                     heap := (heap s)(nextAddr s \<mapsto>
                               \<lparr>pid = pidCounter s, name = nm, parent = None, children = [],
                                callStack = []\<rparr>),
                     nextAddr := Suc (nextAddr s)\<rparr>,
                   ''Created process: PID='' @ show_int (pidCounter s) @ nl)"
    if "processMap s parentPID = None"
    using createProcess_alloc_noparent[OF inv ne that, of nm]
    by (simp add: createProcess_def)
  have b: "\<exists>pp. heap s pa = Some pp \<and>
               createProcess nm parentPID s =
                 Inr (s\<lparr>pidCounter := pidCounter s + 1,
                        processMap := (processMap s)(pidCounter s \<mapsto> nextAddr s),
                        readyQueue := readyQueue s @ [nextAddr s],
                        heap := (heap s)(nextAddr s \<mapsto>
                                  \<lparr>pid = pidCounter s, name = nm, parent = Some pa,
                                   children = [], callStack = []\<rparr>,
                                  pa \<mapsto> pp\<lparr>children := children pp @ [nextAddr s]\<rparr>),
                        nextAddr := Suc (nextAddr s)\<rparr>,
                      ''Created process: PID='' @ show_int (pidCounter s) @ nl)"
    if m: "processMap s parentPID = Some pa" for pa
  proof -
    from store_invD1[OF st m] obtain pp where pp: "heap s pa = Some pp" by blast
    have "pa \<noteq> nextAddr s" using fresh_addr[OF co] pp by auto
    then show ?thesis
      using createProcess_alloc_parent[OF inv ne m pp, of nm] pp
      by (simp add: createProcess_def)
  qed
  from fresh_pid[OF co] fresh_addr[OF co] a b show ?thesis by blast
qed

theorem createProcess_below_INT_MAX_witness:
  "run [CreateProcess ''init'' (- 1), CreateProcess ''child'' 1, RequestIO 2] init =
     Inr child_waiting \<and> pidCounter child_waiting < INT_MAX \<and>
   createProcess ''grandchild'' 2 child_waiting =
     Inr (child_waiting\<lparr>pidCounter := 4, processMap := [1 \<mapsto> 0, 2 \<mapsto> 1, 3 \<mapsto> 2],
            readyQueue := [0, 2],
            heap := [0 \<mapsto> \<lparr>pid = 1, name = ''init'', parent = None, children = [1],
                            callStack = []\<rparr>,
                     1 \<mapsto> \<lparr>pid = 2, name = ''child'', parent = Some 0, children = [2],
                            callStack = []\<rparr>,
                     2 \<mapsto> \<lparr>pid = 3, name = ''grandchild'', parent = Some 1, children = [],
                            callStack = []\<rparr>],
            nextAddr := 3\<rparr>,
          ''Created process: PID=3'' @ nl) \<and>
   createProcess ''stray'' 9 child_waiting =
     Inr (child_waiting\<lparr>pidCounter := 4, processMap := [1 \<mapsto> 0, 2 \<mapsto> 1, 3 \<mapsto> 2],
            readyQueue := [0, 2],
            heap := [0 \<mapsto> \<lparr>pid = 1, name = ''init'', parent = None, children = [1],
                            callStack = []\<rparr>,
                     1 \<mapsto> \<lparr>pid = 2, name = ''child'', parent = Some 0, children = [],
                            callStack = []\<rparr>,
                     2 \<mapsto> \<lparr>pid = 3, name = ''stray'', parent = None, children = [],
                            callStack = []\<rparr>],
            nextAddr := 3\<rparr>,
          ''Created process: PID=3'' @ nl) \<and>
   run [CreateProcess ''init'' (- 1), CreateProcess ''child'' 1, RequestIO 2, CompleteIO 2,
        TerminateProcess 1] init = Inr orphan_ready \<and> pidCounter orphan_ready < INT_MAX \<and>
   createProcess ''next'' (- 1) orphan_ready =
     Inr (orphan_ready\<lparr>pidCounter := 4, root := Some 2, processMap := [2 \<mapsto> 1, 3 \<mapsto> 2],
            readyQueue := [1, 2],
            heap := [1 \<mapsto> \<lparr>pid = 2, name = ''child'', parent = Some 0, children = [],
                            callStack = []\<rparr>,
                     2 \<mapsto> \<lparr>pid = 3, name = ''next'', parent = None, children = [],
                            callStack = []\<rparr>],
            nextAddr := 3\<rparr>,
          ''Created process: PID=3'' @ nl)"
proof -
  have c: "pidCounter child_waiting < INT_MAX"
    by (simp add: child_waiting_def two_processes_def INT_MAX_def)
  have d: "pidCounter orphan_ready < INT_MAX"
    by (simp add: orphan_ready_def INT_MAX_def)
  show ?thesis
    using createProcess_below_INT_MAX[OF run_child_waiting c, of 2 "''grandchild''"]
      createProcess_below_INT_MAX[OF run_child_waiting c, of 9 "''stray''"]
      createProcess_below_INT_MAX[OF run_orphan_ready d, of "- 1" "''next''"]
      run_child_waiting run_orphan_ready c d
    by (simp add: child_waiting_def two_processes_def orphan_ready_def show_defs fun_eq_iff)
qed

section \<open>Queue transfers\<close>

lemma requestIO_present:
  assumes "distinct (readyQueue s)" "processMap s i = Some p" "p \<in> set (readyQueue s)"
  shows "requestIO i s =
           Inr (s\<lparr>readyQueue := filter (\<lambda>a. a \<noteq> p) (readyQueue s),
                  ioQueue := ioQueue s @ [p]\<rparr>,
                ''Process '' @ show_int i @ '' moved to I/O queue.'' @ nl)"
  using assms filter_eq_distinct[OF assms(1,3)]
  by (simp add: requestIO_def requestIO_loop_eq)

lemma requestIO_not_ready:
  assumes "processMap s i = Some p" "p \<notin> set (readyQueue s)"
  shows "requestIO i s = Inr (s, ''Process not in ready queue.'' @ nl)"
  using assms filter_eq_absent[OF assms(2)] filter_neq_absent[OF assms(2)]
  by (simp add: requestIO_def requestIO_loop_eq)

lemma requestIO_absent:
  assumes "processMap s i = None"
  shows "requestIO i s = Inr (s, ''Process not found.'' @ nl)"
  using assms by (simp add: requestIO_def)

text \<open>
  C5. In every reachable state \<^verbatim>\<open>requestIO(pid)\<close> does one of three things. If the
  process is in the ready queue, it leaves the ready queue, the others keep their order,
  it becomes the last element of the I/O queue, and the success message is printed. If the
  process exists but is not in the ready queue, \<^verbatim>\<open>Process not in ready queue.\<close> is
  printed and the state is the same. If the identifier is unknown, \<^verbatim>\<open>Process not found.\<close>
  is printed and the state is the same.
\<close>

theorem requestIO_three_cases:
  assumes "run xs init = Inr s"
  shows "(\<forall>p. processMap s i = Some p \<longrightarrow> p \<in> set (readyQueue s) \<longrightarrow>
            requestIO i s =
              Inr (s\<lparr>readyQueue := filter (\<lambda>a. a \<noteq> p) (readyQueue s),
                     ioQueue := ioQueue s @ [p]\<rparr>,
                   ''Process '' @ show_int i @ '' moved to I/O queue.'' @ nl)) \<and>
         (\<forall>p. processMap s i = Some p \<longrightarrow> p \<notin> set (readyQueue s) \<longrightarrow>
            requestIO i s = Inr (s, ''Process not in ready queue.'' @ nl)) \<and>
         (processMap s i = None \<longrightarrow> requestIO i s = Inr (s, ''Process not found.'' @ nl))"
proof -
  from reachable_inv[OF assms] have "distinct (readyQueue s)"
    by (simp add: registry_inv_def queue_inv_def)
  then show ?thesis
    using requestIO_present[of s i] requestIO_not_ready[of s i] requestIO_absent[of s i]
    by blast
qed

theorem requestIO_three_cases_witness:
  "run [CreateProcess ''init'' (- 1), CreateProcess ''child'' 1] init = Inr two_processes \<and>
   requestIO 1 two_processes =
     Inr (two_processes\<lparr>readyQueue := [1], ioQueue := [0]\<rparr>,
          ''Process 1 moved to I/O queue.'' @ nl) \<and>
   run [CreateProcess ''init'' (- 1), CreateProcess ''child'' 1, RequestIO 2] init =
     Inr child_waiting \<and>
   requestIO 2 child_waiting = Inr (child_waiting, ''Process not in ready queue.'' @ nl) \<and>
   requestIO 7 child_waiting = Inr (child_waiting, ''Process not found.'' @ nl)"
  using requestIO_three_cases[OF run_two_processes, of 1]
    requestIO_three_cases[OF run_child_waiting, of 2]
    requestIO_three_cases[OF run_child_waiting, of 7]
    run_two_processes run_child_waiting
  by (simp add: two_processes_def child_waiting_def show_defs)

lemma completeIO_result:
  assumes "registry_inv s"
  shows "completeIO i s =
           Inr (s\<lparr>readyQueue := readyQueue s @ filter (\<lambda>a. processMap s i = Some a) (ioQueue s),
                  ioQueue := filter (\<lambda>a. processMap s i \<noteq> Some a) (ioQueue s)\<rparr>,
                if \<exists>a \<in> set (ioQueue s). processMap s i = Some a
                then ''Process '' @ show_int i @ '' completed I/O and returned to ready queue.'' @ nl
                else ''Process not found in I/O queue.'' @ nl)"
  unfolding completeIO_def
  using completeIO_loop_inv[OF assms, of "ioQueue s" i "[]" "readyQueue s" False]
  by simp

lemma completeIO_present:
  assumes "registry_inv s" "processMap s i = Some p" "p \<in> set (ioQueue s)"
  shows "completeIO i s =
           Inr (s\<lparr>readyQueue := readyQueue s @ [p],
                  ioQueue := filter (\<lambda>a. a \<noteq> p) (ioQueue s)\<rparr>,
                ''Process '' @ show_int i @ '' completed I/O and returned to ready queue.'' @ nl)"
proof -
  from assms(1) have "distinct (ioQueue s)" by (simp add: registry_inv_def queue_inv_def)
  from filter_eq_distinct[OF this assms(3)]
  have f: "filter (\<lambda>a. p = a) (ioQueue s) = [p]" by (simp add: eq_commute)
  have g: "filter (\<lambda>a. p \<noteq> a) (ioQueue s) = filter (\<lambda>a. a \<noteq> p) (ioQueue s)"
    by (rule filter_cong) auto
  show ?thesis
    using completeIO_result[OF assms(1), of i] assms(2,3) f g by auto
qed

lemma completeIO_absent:
  assumes "registry_inv s" "\<forall>p. processMap s i = Some p \<longrightarrow> p \<notin> set (ioQueue s)"
  shows "completeIO i s = Inr (s, ''Process not found in I/O queue.'' @ nl)"
proof -
  have f: "filter (\<lambda>a. processMap s i = Some a) (ioQueue s) = []"
    using assms(2) by (auto simp: filter_empty_conv)
  have g: "filter (\<lambda>a. processMap s i \<noteq> Some a) (ioQueue s) = ioQueue s"
    using assms(2) by (auto simp: filter_id_conv)
  have n: "\<not> (\<exists>a \<in> set (ioQueue s). processMap s i = Some a)" using assms(2) by auto
  show ?thesis
    using completeIO_result[OF assms(1), of i] by (simp only: f g n if_False append_Nil2) simp
qed

text \<open>
  C6. In every reachable state \<^verbatim>\<open>completeIO(pid)\<close> moves a process that is in the I/O
  queue to the end of the ready queue, the rest of the I/O queue keeping its order, and
  prints the success message; when no process with that identifier is in the I/O queue,
  be it unknown or not waiting, it prints \<^verbatim>\<open>Process not found in I/O queue.\<close> and the
  state is the same. Hence \<^verbatim>\<open>requestIO\<close> followed by \<^verbatim>\<open>completeIO\<close> on a ready
  process puts it at the end of the ready queue and changes nothing else.
\<close>

theorem completeIO_cases:
  assumes "run xs init = Inr s"
  shows "(\<forall>p. processMap s i = Some p \<longrightarrow> p \<in> set (ioQueue s) \<longrightarrow>
            completeIO i s =
              Inr (s\<lparr>readyQueue := readyQueue s @ [p],
                     ioQueue := filter (\<lambda>a. a \<noteq> p) (ioQueue s)\<rparr>,
                   ''Process '' @ show_int i @ '' completed I/O and returned to ready queue.'' @ nl)) \<and>
         ((\<forall>p. processMap s i = Some p \<longrightarrow> p \<notin> set (ioQueue s)) \<longrightarrow>
            completeIO i s = Inr (s, ''Process not found in I/O queue.'' @ nl)) \<and>
         (\<forall>p. processMap s i = Some p \<longrightarrow> p \<in> set (readyQueue s) \<longrightarrow>
            (\<exists>s1. requestIO i s = Inr (s1, ''Process '' @ show_int i @ '' moved to I/O queue.'' @ nl) \<and>
                  completeIO i s1 =
                    Inr (s\<lparr>readyQueue := filter (\<lambda>a. a \<noteq> p) (readyQueue s) @ [p]\<rparr>,
                         ''Process '' @ show_int i @ '' completed I/O and returned to ready queue.'' @ nl)))"
proof -
  note inv = reachable_inv[OF assms]
  then have qu: "queue_inv s" by (simp add: registry_inv_def)
  then have d: "distinct (readyQueue s)" by (simp add: queue_inv_def)
  have round: "\<exists>s1. requestIO i s = Inr (s1, ''Process '' @ show_int i @ '' moved to I/O queue.'' @ nl) \<and>
                  completeIO i s1 =
                    Inr (s\<lparr>readyQueue := filter (\<lambda>a. a \<noteq> p) (readyQueue s) @ [p]\<rparr>,
                         ''Process '' @ show_int i @ '' completed I/O and returned to ready queue.'' @ nl)"
    if m: "processMap s i = Some p" and r: "p \<in> set (readyQueue s)" for p
  proof -
    let ?s1 = "s\<lparr>readyQueue := filter (\<lambda>a. a \<noteq> p) (readyQueue s), ioQueue := ioQueue s @ [p]\<rparr>"
    note req = requestIO_present[OF d m r]
    from requestIO_inv[OF inv req] have inv1: "registry_inv ?s1" .
    have notio: "p \<notin> set (ioQueue s)" using qu r by (auto simp: queue_inv_def)
    have "completeIO i ?s1 =
            Inr (?s1\<lparr>readyQueue := readyQueue ?s1 @ [p],
                     ioQueue := filter (\<lambda>a. a \<noteq> p) (ioQueue ?s1)\<rparr>,
                 ''Process '' @ show_int i @ '' completed I/O and returned to ready queue.'' @ nl)"
      by (rule completeIO_present[OF inv1]) (use m in simp_all)
    then have "completeIO i ?s1 =
            Inr (s\<lparr>readyQueue := filter (\<lambda>a. a \<noteq> p) (readyQueue s) @ [p]\<rparr>,
                 ''Process '' @ show_int i @ '' completed I/O and returned to ready queue.'' @ nl)"
      using filter_neq_absent[OF notio] by simp
    with req show ?thesis by blast
  qed
  show ?thesis
    using completeIO_present[OF inv, of i] completeIO_absent[OF inv, of i] round
    by blast
qed

theorem completeIO_cases_witness:
  "run [CreateProcess ''init'' (- 1), CreateProcess ''child'' 1, RequestIO 2] init =
     Inr child_waiting \<and>
   completeIO 2 child_waiting =
     Inr (child_waiting\<lparr>readyQueue := [0, 1], ioQueue := []\<rparr>,
          ''Process 2 completed I/O and returned to ready queue.'' @ nl) \<and>
   completeIO 1 child_waiting = Inr (child_waiting, ''Process not found in I/O queue.'' @ nl) \<and>
   completeIO 7 child_waiting = Inr (child_waiting, ''Process not found in I/O queue.'' @ nl) \<and>
   run [CreateProcess ''init'' (- 1), CreateProcess ''child'' 1] init = Inr two_processes \<and>
   (\<exists>s1. requestIO 1 two_processes = Inr (s1, ''Process 1 moved to I/O queue.'' @ nl) \<and>
         completeIO 1 s1 =
           Inr (two_processes\<lparr>readyQueue := [1, 0]\<rparr>,
                ''Process 1 completed I/O and returned to ready queue.'' @ nl))"
  using completeIO_cases[OF run_child_waiting, of 2]
    completeIO_cases[OF run_child_waiting, of 1]
    completeIO_cases[OF run_child_waiting, of 7]
    completeIO_cases[OF run_two_processes, of 1]
    run_two_processes run_child_waiting
  by (simp add: two_processes_def child_waiting_def show_defs)

section \<open>Identifiers\<close>

lemma createProcess_alloc_counter:
  assumes "createProcess_alloc nm parentPID s = Inr (s', r)"
  shows "pidCounter s' = pidCounter s + 1 \<and> (\<forall>rp. heap s' r = Some rp \<longrightarrow> pid rp = pidCounter s)"
  using assms unfolding createProcess_alloc_def Let_def
  by (auto split: if_splits option.splits sum.splits)

lemma step_counter:
  assumes "\<not> is_create x" "step x s = Inr (s', out)"
  shows "pidCounter s' = pidCounter s"
proof (cases x)
  case (CreateProcess nm parentPID)
  then show ?thesis using assms by simp
next
  case (CallFunction i f)
  then show ?thesis using assms callFunction_state[of i f s s' out] by auto
next
  case (RequestIO i)
  then show ?thesis using assms requestIO_state[of i s s' out] by auto
next
  case (CompleteIO i)
  then show ?thesis using assms by (auto simp: completeIO_def split: sum.splits prod.splits)
next
  case (TerminateProcess i)
  then show ?thesis using assms
    by (auto simp: terminateProcess_def Let_def split: option.splits sum.splits if_splits)
qed

lemma upt_shift: "map f [0..<Suc n] = f 0 # map (\<lambda>k. f (Suc k)) [0..<n]"
proof -
  have "[0..<Suc n] = 0 # map Suc [0..<n]" by (simp add: upt_conv_Cons map_Suc_upt del: upt_Suc)
  then show ?thesis by (simp add: comp_def del: upt_Suc)
qed

lemma created_pids_from:
  "created_pids xs s = map (\<lambda>k. pidCounter s + int k) [0..<length (created_pids xs s)]"
proof (induction xs arbitrary: s)
  case Nil
  then show ?case by simp
next
  case (Cons x xs)
  show ?case
  proof (cases "is_create x")
    case True
    then obtain nm parentPID where x: "x = CreateProcess nm parentPID" by (cases x) auto
    show ?thesis
    proof (cases "createProcess_alloc nm parentPID s")
      case (Inl e)
      then show ?thesis using x by simp
    next
      case (Inr sr)
      obtain s' r where sr: "sr = (s', r)" by (cases sr)
      show ?thesis
      proof (cases "heap s' r")
        case None
        then show ?thesis using x Inr sr by simp
      next
        case (Some rp)
        from createProcess_alloc_counter[OF Inr[unfolded sr]] Some
        have c: "pidCounter s' = pidCounter s + 1" "pid rp = pidCounter s" by auto
        have e: "created_pids (x # xs) s = pidCounter s # created_pids xs s'"
          using x Inr sr Some c by simp
        have f: "(\<lambda>k. pidCounter s' + int k) = (\<lambda>k. pidCounter s + int (Suc k))"
          using c(1) by (simp add: fun_eq_iff)
        have "created_pids xs s' =
                map (\<lambda>k. pidCounter s + int (Suc k)) [0..<length (created_pids xs s')]"
          using Cons.IH[of s'] unfolding f .
        then have "pidCounter s # created_pids xs s' =
                map (\<lambda>k. pidCounter s + int k) [0..<Suc (length (created_pids xs s'))]"
          unfolding upt_shift[of "\<lambda>k. pidCounter s + int k"] by simp
        then show ?thesis using e by simp
      qed
    qed
  next
    case False
    show ?thesis
    proof (cases "step x s")
      case (Inl e)
      then show ?thesis using False by (cases x) auto
    next
      case (Inr so)
      obtain s' out where so: "so = (s', out)" by (cases so)
      from step_counter[OF False Inr[unfolded so]] have c: "pidCounter s' = pidCounter s" .
      have "created_pids (x # xs) s = created_pids xs s'"
        using False Inr so by (cases x) auto
      then show ?thesis using Cons.IH[of s'] c by simp
    qed
  qed
qed

lemma created_pids_complete:
  assumes "run xs s = Inr s'"
  shows "length (created_pids xs s) = length (filter is_create xs) \<and>
         pidCounter s' = pidCounter s + int (length (filter is_create xs))"
  using assms
proof (induction xs arbitrary: s)
  case Nil
  then show ?case by simp
next
  case (Cons x xs)
  from Cons.prems obtain s1 out where st: "step x s = Inr (s1, out)" and r: "run xs s1 = Inr s'"
    by (auto split: sum.splits)
  note ih = Cons.IH[OF r]
  show ?case
  proof (cases "is_create x")
    case True
    then obtain nm parentPID where x: "x = CreateProcess nm parentPID" by (cases x) auto
    from st x obtain r rp where a: "createProcess_alloc nm parentPID s = Inr (s1, r)"
      and h: "heap s1 r = Some rp"
      by (auto simp: createProcess_def split: sum.splits option.splits)
    from createProcess_alloc_counter[OF a] have "pidCounter s1 = pidCounter s + 1" by simp
    then show ?thesis using ih x a h by simp
  next
    case False
    from step_counter[OF False st] have c: "pidCounter s1 = pidCounter s" .
    have "created_pids (x # xs) s = created_pids xs s1" using False st by (cases x) auto
    then show ?thesis using ih c False by simp
  qed
qed

lemma created_pids_bound:
  "pidCounter s \<le> INT_MAX \<Longrightarrow> pidCounter s + int (length (created_pids xs s)) \<le> INT_MAX"
proof (induction xs arbitrary: s)
  case Nil
  then show ?case by simp
next
  case (Cons x xs)
  show ?case
  proof (cases "is_create x")
    case True
    then obtain nm parentPID where x: "x = CreateProcess nm parentPID" by (cases x) auto
    show ?thesis
    proof (cases "createProcess_alloc nm parentPID s")
      case (Inl e)
      then show ?thesis using x Cons.prems by simp
    next
      case (Inr sr)
      obtain s' r where sr: "sr = (s', r)" by (cases sr)
      have ne: "pidCounter s \<noteq> INT_MAX"
        using Inr createProcess_alloc_overflow[of s nm parentPID] by auto
      from createProcess_alloc_counter[OF Inr[unfolded sr]]
      have c: "pidCounter s' = pidCounter s + 1" by simp
      then have "pidCounter s' \<le> INT_MAX" using ne Cons.prems by simp
      from Cons.IH[OF this] c show ?thesis
        using x Inr sr Cons.prems by (cases "heap s' r") auto
    qed
  next
    case False
    show ?thesis
    proof (cases "step x s")
      case (Inl e)
      then show ?thesis using False Cons.prems by (cases x) auto
    next
      case (Inr so)
      obtain s' out where so: "so = (s', out)" by (cases so)
      from step_counter[OF False Inr[unfolded so]] have c: "pidCounter s' = pidCounter s" .
      have "created_pids (x # xs) s = created_pids xs s'"
        using False Inr so by (cases x) auto
      then show ?thesis using Cons.IH[of s'] c Cons.prems by simp
    qed
  qed
qed

lemma created_pids_append:
  "run xs s = Inr s' \<Longrightarrow> created_pids (xs @ ys) s = created_pids xs s @ created_pids ys s'"
proof (induction xs arbitrary: s)
  case Nil
  then show ?case by simp
next
  case (Cons x xs)
  from Cons.prems obtain s1 out where st: "step x s = Inr (s1, out)" and r: "run xs s1 = Inr s'"
    by (auto split: sum.splits)
  note ih = Cons.IH[OF r]
  show ?case
  proof (cases "is_create x")
    case True
    then obtain nm parentPID where x: "x = CreateProcess nm parentPID" by (cases x) auto
    from st x obtain r rp where "createProcess_alloc nm parentPID s = Inr (s1, r)"
      "heap s1 r = Some rp"
      by (auto simp: createProcess_def split: sum.splits option.splits)
    then show ?thesis using ih x by simp
  next
    case False
    then show ?thesis using st ih by (cases x) auto
  qed
qed

lemma creates_of_churn: "length (filter is_create (churn k)) = k"
  by (induction k) auto

text \<open>
  C7, as stated, speaks of every sequence of operations. The sequence below has
  2147483647 \<^verbatim>\<open>createProcess\<close> calls, and only the first 2147483646 of them are given
  an identifier: the last call finds \<^verbatim>\<open>pidCounter == INT_MAX\<close>, \<^verbatim>\<open>pidCounter++\<close>
  overflows, and the run has no defined continuation in which identifiers could go on
  increasing.
\<close>

theorem created_pids_overflow_counterexample:
  "length (filter is_create (churn 2147483646 @ [CreateProcess ''p'' (- 1)])) = 2147483647 \<and>
   length (created_pids (churn 2147483646 @ [CreateProcess ''p'' (- 1)]) init) = 2147483646 \<and>
   run (churn 2147483646 @ [CreateProcess ''p'' (- 1)]) init = Inl SignedOverflow"
proof -
  let ?s = "init\<lparr>pidCounter := 2147483647, nextAddr := 2147483646\<rparr>"
  have "int 2147483646 < INT_MAX" by (simp add: INT_MAX_def)
  from run_churn[OF this] have r: "run (churn 2147483646) init = Inr ?s" by simp
  have a: "createProcess_alloc ''p'' (- 1) ?s = Inl SignedOverflow"
    by (simp add: createProcess_alloc_def INT_MAX_def init_def)
  have n: "length (filter is_create (churn 2147483646 @ [CreateProcess ''p'' (- 1)])) = 2147483647"
    by (simp add: creates_of_churn)
  from created_pids_complete[OF r]
  have "length (created_pids (churn 2147483646) init) = 2147483646"
    by (simp add: creates_of_churn)
  moreover have "created_pids [CreateProcess ''p'' (- 1)] ?s = []" using a by simp
  ultimately have l: "length (created_pids (churn 2147483646 @ [CreateProcess ''p'' (- 1)]) init) =
      2147483646"
    using created_pids_append[OF r, of "[CreateProcess ''p'' (- 1)]"] by simp
  have "run (churn 2147483646 @ [CreateProcess ''p'' (- 1)]) init = Inl SignedOverflow"
    using r a by (simp add: run_append createProcess_def)
  with n l show ?thesis by blast
qed

text \<open>
  C7, amended. Along every sequence of operations from the initial state, the identifiers
  that \<^verbatim>\<open>createProcess\<close> hands out, up to the end of the sequence or the first operation
  without defined behaviour, are \<open>1, 2, 3, \<dots>\<close> in this order: strictly increasing from
  1 and never repeated, whatever was terminated in between. There are fewer than
  \<open>INT_MAX\<close> of them, since the call at \<^verbatim>\<open>pidCounter == INT_MAX\<close> overflows and hands
  out nothing. A sequence that runs to its end has handed out one identifier for each of
  its \<^verbatim>\<open>createProcess\<close> calls.
\<close>

theorem created_pids_increasing:
  "created_pids xs init = map int [1..<Suc (length (created_pids xs init))] \<and>
   sorted_wrt (<) (created_pids xs init) \<and> distinct (created_pids xs init) \<and>
   int (length (created_pids xs init)) < INT_MAX \<and>
   (run xs init = Inr s \<longrightarrow>
      length (created_pids xs init) = length (filter is_create xs) \<and>
      pidCounter s = 1 + int (length (filter is_create xs)))"
proof -
  let ?n = "length (created_pids xs init)"
  have "created_pids xs init = map (\<lambda>k. 1 + int k) [0..<?n]"
    using created_pids_from[of xs init] by (simp add: init_def)
  also have "\<dots> = map int (map Suc [0..<?n])" by (simp add: comp_def)
  also have "\<dots> = map int [1..<Suc ?n]" by (simp only: map_Suc_upt) simp
  finally have e: "created_pids xs init = map int [1..<Suc ?n]" .
  have s: "sorted_wrt (<) (map int [1..<Suc ?n])"
    by (simp add: sorted_wrt_map del: upt_Suc)
  have d: "distinct (map int [1..<Suc ?n])"
    by (simp add: distinct_map del: upt_Suc)
  have c: "run xs init = Inr s \<longrightarrow>
      length (created_pids xs init) = length (filter is_create xs) \<and>
      pidCounter s = 1 + int (length (filter is_create xs))"
    using created_pids_complete[of xs init s] by (simp add: init_def)
  have b: "int (length (created_pids xs init)) < INT_MAX"
    using created_pids_bound[of init xs] by (simp add: init_def INT_MAX_def)
  from e s d b c show ?thesis by metis
qed

theorem created_pids_increasing_witness:
  "created_pids [CreateProcess ''init'' (- 1), CreateProcess ''child'' 1, TerminateProcess 1,
                 CreateProcess ''next'' (- 1)] init = [1, 2, 3] \<and>
   run [CreateProcess ''init'' (- 1), CreateProcess ''child'' 1, TerminateProcess 1,
        CreateProcess ''next'' (- 1)] init =
     Inr \<lparr>pidCounter = 4, root = Some 2, processMap = [2 \<mapsto> 1, 3 \<mapsto> 2], readyQueue = [1, 2],
          ioQueue = [],
          heap = [1 \<mapsto> \<lparr>pid = 2, name = ''child'', parent = Some 0, children = [],
                         callStack = []\<rparr>,
                  2 \<mapsto> \<lparr>pid = 3, name = ''next'', parent = None, children = [],
                         callStack = []\<rparr>],
          nextAddr = 3\<rparr>"
proof -
  let ?xs = "[CreateProcess ''init'' (- 1), CreateProcess ''child'' 1, TerminateProcess 1,
        CreateProcess ''next'' (- 1)]"
  let ?s = "\<lparr>pidCounter = 4, root = Some 2, processMap = [2 \<mapsto> 1, 3 \<mapsto> 2], readyQueue = [1, 2],
          ioQueue = [],
          heap = [1 \<mapsto> \<lparr>pid = 2, name = ''child'', parent = Some 0, children = [],
                         callStack = []\<rparr>,
                  2 \<mapsto> \<lparr>pid = 3, name = ''next'', parent = None, children = [],
                         callStack = []\<rparr>],
          nextAddr = 3\<rparr>"
  have r: "run ?xs init = Inr ?s" by (simp add: ops_defs fun_eq_iff)
  from created_pids_increasing[of ?xs ?s]
  have a: "created_pids ?xs init = map int [1..<Suc (length (created_pids ?xs init))]"
    and b: "run ?xs init = Inr ?s \<longrightarrow>
              length (created_pids ?xs init) = length (filter is_create ?xs)"
    by blast+
  from b r have "length (created_pids ?xs init) = length (filter is_create ?xs)" by blast
  also have "\<dots> = 3" by simp
  finally have "created_pids ?xs init = map int [1..<Suc 3]" using a by (simp only:)
  also have "\<dots> = [1, 2, 3]" by (simp add: upt_rec)
  finally have "created_pids ?xs init = [1, 2, 3]" .
  with r show ?thesis by simp
qed

section \<open>Display\<close>

lemma displayQueue_live:
  assumes "\<forall>a \<in> set q. h a \<noteq> None"
  shows "\<exists>out. displayQueue h q = Inr out"
  using assms by (induction q) auto

lemma displayChildren_ok:
  assumes "\<forall>c \<in> set cs. \<exists>out. f c = Some (Inr out)"
  shows "\<exists>out. displayChildren f cs = Some (Inr out)"
  using assms by (induction cs) auto

lemma displayHierarchy_ok:
  assumes "tree_inv s" "counter_inv s"
  shows "heap s a \<noteq> None \<Longrightarrow> nextAddr s - a \<le> fuel \<Longrightarrow>
         \<exists>out. displayHierarchy fuel (heap s) a indent = Some (Inr out)"
proof (induction fuel arbitrary: a indent)
  case 0
  then obtain p where "heap s a = Some p" by auto
  from counter_invD2[OF assms(2) this] 0 show ?case by simp
next
  case (Suc fuel)
  then obtain p where p: "heap s a = Some p" by auto
  have "\<exists>out. displayHierarchy fuel (heap s) c (indent @ ''  '') = Some (Inr out)"
    if "c \<in> set (children p)" for c
  proof -
    from tree_invD[OF assms(1) p that] obtain q where c: "a < c" "heap s c = Some q" by blast
    from counter_invD2[OF assms(2) c(2)] c(1) Suc.prems(2) have "nextAddr s - c \<le> fuel" by simp
    with c(2) show ?thesis using Suc.IH[of c] by simp
  qed
  then have "\<forall>c \<in> set (children p).
      \<exists>out. (\<lambda>child. displayHierarchy fuel (heap s) child (indent @ ''  '')) c = Some (Inr out)"
    by simp
  from displayChildren_ok[OF this] obtain out where
    "displayChildren (\<lambda>child. displayHierarchy fuel (heap s) child (indent @ ''  ''))
       (children p) = Some (Inr out)" by blast
  then show ?case using p by simp
qed

lemma queues_live:
  assumes "queue_inv s"
  shows "\<forall>a \<in> set (readyQueue s). heap s a \<noteq> None" "\<forall>a \<in> set (ioQueue s). heap s a \<noteq> None"
  using queue_inv_dom[OF assms] by blast+

text \<open>
  C8. In every reachable state without a root, whatever processes are still live,
  \<^verbatim>\<open>showState\<close> prints the two queues and then \<^verbatim>\<open>(No processes created yet)\<close> where
  the tree would be.
\<close>

theorem showState_without_root:
  assumes "run xs init = Inr s" "root s = None"
  shows "\<exists>out1 out2.
           displayQueue (heap s) (readyQueue s) = Inr out1 \<and>
           displayQueue (heap s) (ioQueue s) = Inr out2 \<and>
           showState fuel s =
             Some (Inr (s, nl @ ''--- Ready Queue ---'' @ nl @ out1
                           @ nl @ ''--- I/O Queue ---'' @ nl @ out2
                           @ nl @ ''--- Process Tree ---'' @ nl
                           @ ''(No processes created yet)'' @ nl
                           @ ''--------------------'' @ nl))"
proof -
  from reachable_inv[OF assms(1)] have qu: "queue_inv s" by (simp add: registry_inv_def)
  from displayQueue_live[OF queues_live(1)[OF qu]] obtain out1 where
    o1: "displayQueue (heap s) (readyQueue s) = Inr out1" by blast
  from displayQueue_live[OF queues_live(2)[OF qu]] obtain out2 where
    o2: "displayQueue (heap s) (ioQueue s) = Inr out2" by blast
  show ?thesis using o1 o2 assms(2) by (simp add: showState_def)
qed

theorem showState_without_root_witness:
  "run [CreateProcess ''init'' (- 1), CreateProcess ''child'' 1, RequestIO 2, CompleteIO 2,
        TerminateProcess 1] init = Inr orphan_ready \<and>
   root orphan_ready = None \<and> processMap orphan_ready 2 = Some 1 \<and>
   readyQueue orphan_ready = [1] \<and>
   showState 0 orphan_ready =
     Some (Inr (orphan_ready,
       nl @ ''--- Ready Queue ---'' @ nl @ ''PID: 2, Name: child'' @ nl
       @ nl @ ''--- I/O Queue ---'' @ nl
       @ nl @ ''--- Process Tree ---'' @ nl @ ''(No processes created yet)'' @ nl
       @ ''--------------------'' @ nl))"
proof -
  have r: "root orphan_ready = None" by (simp add: orphan_ready_def)
  from showState_without_root[OF run_orphan_ready r, of 0] obtain out1 out2 where
    *: "displayQueue (heap orphan_ready) (readyQueue orphan_ready) = Inr out1"
    "displayQueue (heap orphan_ready) (ioQueue orphan_ready) = Inr out2"
    "showState 0 orphan_ready =
             Some (Inr (orphan_ready, nl @ ''--- Ready Queue ---'' @ nl @ out1
                           @ nl @ ''--- I/O Queue ---'' @ nl @ out2
                           @ nl @ ''--- Process Tree ---'' @ nl
                           @ ''(No processes created yet)'' @ nl
                           @ ''--------------------'' @ nl))" by blast
  have "out1 = ''PID: 2, Name: child'' @ nl" "out2 = []"
    using *(1,2) by (simp_all add: orphan_ready_def show_defs)
  with *(3) run_orphan_ready show ?thesis by (simp add: orphan_ready_def)
qed

text \<open>
  C9. In every reachable state \<^verbatim>\<open>showState\<close> comes back (a recursion depth of
  \<open>nextAddr\<close> is always enough), reads no deleted object, and returns the state it was
  given: queues, store, tree links, root and counter are what they were.
\<close>

theorem showState_read_only:
  assumes "run xs init = Inr s" "nextAddr s \<le> fuel"
  shows "\<exists>out. showState fuel s = Some (Inr (s, out))"
proof -
  from reachable_inv[OF assms(1)] have qu: "queue_inv s" and co: "counter_inv s"
    and tr: "tree_inv s" by (simp_all add: registry_inv_def)
  from displayQueue_live[OF queues_live(1)[OF qu]] obtain out1 where
    o1: "displayQueue (heap s) (readyQueue s) = Inr out1" by blast
  from displayQueue_live[OF queues_live(2)[OF qu]] obtain out2 where
    o2: "displayQueue (heap s) (ioQueue s) = Inr out2" by blast
  show ?thesis
  proof (cases "root s")
    case None
    then show ?thesis using o1 o2 by (simp add: showState_def)
  next
    case (Some r)
    then have "heap s r \<noteq> None" using tr by (simp add: tree_inv_def)
    moreover have "nextAddr s - r \<le> fuel" using assms(2) by simp
    ultimately obtain out3 where "displayHierarchy fuel (heap s) r [] = Some (Inr out3)"
      using displayHierarchy_ok[OF tr co, of r fuel "[]"] by blast
    then show ?thesis using Some o1 o2 by (simp add: showState_def)
  qed
qed

theorem showState_read_only_witness:
  "run [CreateProcess ''init'' (- 1), CreateProcess ''child'' 1, RequestIO 2] init =
     Inr child_waiting \<and> nextAddr child_waiting \<le> 2 \<and>
   showState 2 child_waiting =
     Some (Inr (child_waiting,
       nl @ ''--- Ready Queue ---'' @ nl @ ''PID: 1, Name: init'' @ nl
       @ nl @ ''--- I/O Queue ---'' @ nl @ ''PID: 2, Name: child'' @ nl
       @ nl @ ''--- Process Tree ---'' @ nl @ ''PID: 1, Name: init'' @ nl
       @ ''  PID: 2, Name: child'' @ nl @ ''--------------------'' @ nl))"
proof -
  have n: "nextAddr child_waiting \<le> 2" by (simp add: child_waiting_def two_processes_def)
  from showState_read_only[OF run_child_waiting n] obtain out where
    "showState 2 child_waiting = Some (Inr (child_waiting, out))" by blast
  moreover have "showState (Suc (Suc 0)) child_waiting =
     Some (Inr (child_waiting,
       nl @ ''--- Ready Queue ---'' @ nl @ ''PID: 1, Name: init'' @ nl
       @ nl @ ''--- I/O Queue ---'' @ nl @ ''PID: 2, Name: child'' @ nl
       @ nl @ ''--- Process Tree ---'' @ nl @ ''PID: 1, Name: init'' @ nl
       @ ''  PID: 2, Name: child'' @ nl @ ''--------------------'' @ nl))"
    by (simp add: showState_def child_waiting_def two_processes_def show_defs)
  ultimately show ?thesis using run_child_waiting n by (simp add: numeral_2_eq_2)
qed

section \<open>Call stacks\<close>

text \<open>
  C10. In every reachable state, \<^verbatim>\<open>callFunction(pid, funcName)\<close> on a live \<^verbatim>\<open>pid\<close>
  succeeds, puts \<^verbatim>\<open>funcName\<close> on top of that process's call stack, and changes nothing
  else: not the other fields of the process, not any other object, not the queues, the
  map, the root or the counter.
\<close>

theorem callFunction_frame:
  assumes "run xs init = Inr s" "processMap s i = Some a"
  shows "\<exists>p s'. heap s a = Some p \<and>
           callFunction i funcName s =
             Inr (s', ''Process '' @ show_int i @ '' called function: '' @ funcName @ nl) \<and>
           heap s' a = Some (p\<lparr>callStack := funcName # callStack p\<rparr>) \<and>
           (\<forall>b. b \<noteq> a \<longrightarrow> heap s' b = heap s b) \<and>
           pidCounter s' = pidCounter s \<and> root s' = root s \<and> processMap s' = processMap s \<and>
           readyQueue s' = readyQueue s \<and> ioQueue s' = ioQueue s \<and> nextAddr s' = nextAddr s"
proof -
  from reachable_inv[OF assms(1)] have "store_inv s" by (simp add: registry_inv_def)
  from store_invD1[OF this assms(2)] obtain p where p: "heap s a = Some p" by blast
  have "callFunction i funcName s =
          Inr (s\<lparr>heap := (heap s)(a \<mapsto> p\<lparr>callStack := funcName # callStack p\<rparr>)\<rparr>,
               ''Process '' @ show_int i @ '' called function: '' @ funcName @ nl)"
    using assms(2) p by (simp add: callFunction_def)
  with p show ?thesis by simp
qed

theorem callFunction_frame_witness:
  "run [CreateProcess ''init'' (- 1), CreateProcess ''child'' 1] init = Inr two_processes \<and>
   processMap two_processes 2 = Some 1 \<and>
   callFunction 2 ''main'' two_processes =
     Inr (two_processes\<lparr>heap := (heap two_processes)
            (1 \<mapsto> \<lparr>pid = 2, name = ''child'', parent = Some 0, children = [],
                    callStack = [''main'']\<rparr>)\<rparr>,
          ''Process 2 called function: main'' @ nl)"
proof -
  have m: "processMap two_processes 2 = Some 1" by (simp add: two_processes_def)
  from callFunction_frame[OF run_two_processes m, of "''main''"]
  obtain p s' where *: "heap two_processes 1 = Some p"
    "callFunction 2 ''main'' two_processes = Inr (s', ''Process '' @ show_int 2 @ '' called function: '' @ ''main'' @ nl)"
    "heap s' 1 = Some (p\<lparr>callStack := ''main'' # callStack p\<rparr>)"
    "\<forall>b. b \<noteq> 1 \<longrightarrow> heap s' b = heap two_processes b"
    "pidCounter s' = pidCounter two_processes" "root s' = root two_processes"
    "processMap s' = processMap two_processes" "readyQueue s' = readyQueue two_processes"
    "ioQueue s' = ioQueue two_processes" "nextAddr s' = nextAddr two_processes"
    by blast
  have "s' = two_processes\<lparr>heap := (heap two_processes)
            (1 \<mapsto> \<lparr>pid = 2, name = ''child'', parent = Some 0, children = [],
                    callStack = [''main'']\<rparr>)\<rparr>"
    using * by (intro state.equality) (auto simp: two_processes_def fun_eq_iff)
  with *(2) run_two_processes m show ?thesis by (simp add: show_defs)
qed

end
